theory Spec2Isabelle
  imports Main "HOL-Library.Word"
begin

section \<open>Machine sizes\<close>

text \<open>
  \<^verbatim>\<open>size_t\<close> is modelled as a 64-bit unsigned machine word: \<open>+\<close> wraps around,
  \<open>unat\<close> reads it as a natural number.
\<close>

type_synonym size_t = "64 word"

text \<open>Incrementing a counter that is below a bound does not wrap around.\<close>

lemma word_succ_below:
  fixes c m :: "'a::len word"
  assumes "c < m"
  shows "unat (c + 1) = Suc (unat c)" and "c + 1 \<le> m"
proof -
  from assms have lt: "unat c < unat m"
    by (simp add: word_less_nat_alt)
  have "unat m < 2 ^ LENGTH('a)"
    by (rule unsigned_less)
  with lt have "Suc (unat c) < 2 ^ LENGTH('a)"
    by linarith
  then show suc: "unat (c + 1) = Suc (unat c)"
    by (simp add: unat_word_ariths)
  from lt suc show "c + 1 \<le> m"
    by (simp add: word_le_nat_alt)
qed

section \<open>The streamable protocol\<close>

text \<open>
  A streamable is an object with a method \<^verbatim>\<open>next() -> optional<T>\<close> that may change
  the object. Its model is a function from the state of the object to the returned
  optional and the state after the call: \<open>Some x\<close> is Present(x), \<open>None\<close> is Absent.
\<close>

type_synonym ('a, 's) streamable = "'s \<Rightarrow> 'a option \<times> 's"

text \<open>\<open>calls nxt n s\<close>: what the first \<open>n\<close> successive calls return, starting in state \<open>s\<close>.\<close>

fun calls :: "('a, 's) streamable \<Rightarrow> nat \<Rightarrow> 's \<Rightarrow> 'a option list" where
  "calls nxt 0 s = []"
| "calls nxt (Suc n) s = fst (nxt s) # calls nxt n (snd (nxt s))"

text \<open>\<open>advance nxt n s\<close>: the state of the object after \<open>n\<close> successive calls.\<close>

fun advance :: "('a, 's) streamable \<Rightarrow> nat \<Rightarrow> 's \<Rightarrow> 's" where
  "advance nxt 0 s = s"
| "advance nxt (Suc n) s = advance nxt n (snd (nxt s))"

text \<open>
  \<open>yields nxt s xs\<close>: starting in state \<open>s\<close>, the successive calls return the elements
  of \<open>xs\<close>, in order, and the call after them returns Absent. The stream then has
  length \<open>length xs\<close>.
\<close>

fun yields :: "('a, 's) streamable \<Rightarrow> 's \<Rightarrow> 'a list \<Rightarrow> bool" where
  "yields nxt s [] = (fst (nxt s) = None)"
| "yields nxt s (x # xs) = (fst (nxt s) = Some x \<and> yields nxt (snd (nxt s)) xs)"

text \<open>
  The contract of the protocol: a call that follows a call that returned Absent returns
  Absent again.
\<close>

definition exhaustion_stable :: "('a, 's) streamable \<Rightarrow> bool" where
  "exhaustion_stable nxt \<longleftrightarrow> (\<forall>s. fst (nxt s) = None \<longrightarrow> fst (nxt (snd (nxt s))) = None)"

section \<open>Sources\<close>

subsection \<open>\<^verbatim>\<open>CountingStreamable\<close> (counting_streamable.hpp)\<close>

record 'a CountingStreamable =
  cs_value :: 'a
  cs_max_count :: size_t
  cs_count :: size_t

text \<open>The constructor stores the value and the maximum count and sets the counter to 0.\<close>

definition new_CountingStreamable :: "'a \<Rightarrow> size_t \<Rightarrow> 'a CountingStreamable" where
  "new_CountingStreamable v max_count =
     \<lparr>cs_value = v, cs_max_count = max_count, cs_count = 0\<rparr>"

text \<open>
  \<^verbatim>\<open>next\<close>: Absent when the counter equals the maximum count; otherwise the counter is
  incremented and a copy of the stored value is returned.
\<close>

definition CountingStreamable_next :: "('a, 'a CountingStreamable) streamable" where
  "CountingStreamable_next s =
     (if cs_count s = cs_max_count s then (None, s)
      else (Some (cs_value s), s\<lparr>cs_count := cs_count s + 1\<rparr>))"

subsection \<open>\<^verbatim>\<open>RefSupplier\<close> (the iterator-bound supplier)\<close>

text \<open>
  The supplier holds two iterators of a type \<^verbatim>\<open>I\<close> that is a template parameter. The
  operations of the iterator type that \<^verbatim>\<open>get_next\<close> uses are parameters of the model:
  \<open>deref\<close> is \<^verbatim>\<open>*it\<close>, \<open>incr\<close> is the iterator after \<^verbatim>\<open>it++\<close>, and \<^verbatim>\<open>==\<close> is equality.
\<close>

record 'i RefSupplier =
  rs_current :: 'i
  rs_end :: 'i

definition new_RefSupplier :: "'i \<Rightarrow> 'i \<Rightarrow> 'i RefSupplier" where
  "new_RefSupplier begin_it end_it = \<lparr>rs_current = begin_it, rs_end = end_it\<rparr>"

text \<open>
  \<^verbatim>\<open>get_next\<close>: Absent when the current iterator equals the end iterator, without
  touching either; otherwise the element under the current iterator, and the current
  iterator moves one step.
\<close>

definition RefSupplier_get_next ::
  "('i \<Rightarrow> 'a) \<Rightarrow> ('i \<Rightarrow> 'i) \<Rightarrow> ('a, 'i RefSupplier) streamable" where
  "RefSupplier_get_next deref incr s =
     (if rs_current s = rs_end s then (None, s)
      else (Some (deref (rs_current s)), s\<lparr>rs_current := incr (rs_current s)\<rparr>))"

section \<open>Stages\<close>

subsection \<open>\<^verbatim>\<open>ChainingStream\<close>\<close>

text \<open>
  Modelled from the spec: the class \<^verbatim>\<open>ChainingStream\<close> (chaining_stream.hpp), which
  \<^verbatim>\<open>chain\<close> and \<^verbatim>\<open>pre_chain\<close> construct, is not among the sources. The spec: ``Chaining:
  owns two streamables; exhausts the first entirely, in order, before pulling from the
  second'', and every stage implements \<^verbatim>\<open>next\<close> ``in terms of upstream \<^verbatim>\<open>next\<close> calls''.
  The stage holds the two streamables in the order of its constructor's arguments; its
  \<^verbatim>\<open>next\<close> pulls the first and returns its element when there is one, and pulls the
  second only when the first returned Absent.
\<close>

record ('s1, 's2) ChainingStream =
  chain_first :: 's1
  chain_second :: 's2

definition new_ChainingStream :: "'s1 \<Rightarrow> 's2 \<Rightarrow> ('s1, 's2) ChainingStream" where
  "new_ChainingStream streamable other = \<lparr>chain_first = streamable, chain_second = other\<rparr>"

definition ChainingStream_next ::
  "('a, 's1) streamable \<Rightarrow> ('a, 's2) streamable \<Rightarrow> ('a, ('s1, 's2) ChainingStream) streamable"
  where
  "ChainingStream_next nxt1 nxt2 c =
     (case nxt1 (chain_first c) of
        (Some x, s1) \<Rightarrow> (Some x, c\<lparr>chain_first := s1\<rparr>)
      | (None, s1) \<Rightarrow>
          (case nxt2 (chain_second c) of
             (element, s2) \<Rightarrow> (element, \<lparr>chain_first = s1, chain_second = s2\<rparr>)))"

section \<open>The pipeline wrapper \<^verbatim>\<open>Stream\<close> (stream.hpp)\<close>

text \<open>
  \<^verbatim>\<open>Stream<T, S, IMPL>\<close> reaches the pipeline it wraps through \<^verbatim>\<open>get_self()\<close> and calls
  its \<^verbatim>\<open>next()\<close>. In the model every operation takes that \<^verbatim>\<open>next\<close> as the parameter
  \<open>nxt\<close> and the state \<open>s\<close> of the pipeline object, and returns its result together
  with the state of the pipeline after the operation. A loop that runs until the
  pipeline returns Absent need not end: such an operation returns an \<open>option\<close>, and
  \<open>None\<close> stands for a call that never returns.
\<close>

subsection \<open>\<^verbatim>\<open>chain\<close> and \<^verbatim>\<open>pre_chain\<close>\<close>

text \<open>
  \<^verbatim>\<open>chain(other)\<close> builds \<^verbatim>\<open>ChainingStream<IMPL, S2>(self, other)\<close>;
  \<^verbatim>\<open>pre_chain(other)\<close> builds \<^verbatim>\<open>ChainingStream<S2, IMPL>(other, self)\<close>.
\<close>

definition chain :: "'s \<Rightarrow> 's2 \<Rightarrow> ('s, 's2) ChainingStream" where
  "chain self other = new_ChainingStream self other"

definition pre_chain :: "'s \<Rightarrow> 's2 \<Rightarrow> ('s2, 's) ChainingStream" where
  "pre_chain self other = new_ChainingStream other self"

subsection \<open>\<^verbatim>\<open>skip\<close>\<close>

text \<open>
  The \<^verbatim>\<open>for\<close> loop of \<^verbatim>\<open>skip\<close>: while \<open>i < count\<close>, pull once; leave the loop when the
  pull returned Absent, otherwise increment \<open>i\<close>. The loop runs at most \<open>count\<close> times,
  whatever the pipeline does.
\<close>

function skip_loop :: "('a, 's) streamable \<Rightarrow> size_t \<Rightarrow> size_t \<Rightarrow> 's \<Rightarrow> 's" where
  "skip_loop nxt i count s =
     (if i < count then
        (case nxt s of
           (None, s') \<Rightarrow> s'
         | (Some x, s') \<Rightarrow> skip_loop nxt (i + 1) count s')
      else s)"
  by pat_completeness auto
termination
proof (relation "measure (\<lambda>(nxt, i, count, s). unat count - unat i)", goal_cases)
  case 1
  show ?case by simp
next
  case (2 nxt i count s x y x2)
  from \<open>i < count\<close> have "unat i < unat count"
    by (simp add: word_less_nat_alt)
  with word_succ_below(1) [OF \<open>i < count\<close>] show ?case
    by simp
qed

definition skip :: "('a, 's) streamable \<Rightarrow> size_t \<Rightarrow> 's \<Rightarrow> 's" where
  "skip nxt count s = skip_loop nxt 0 count s"

subsection \<open>\<^verbatim>\<open>find_first\<close> and \<^verbatim>\<open>find_last\<close>\<close>

definition find_first :: "('a, 's) streamable \<Rightarrow> 's \<Rightarrow> 'a option \<times> 's" where
  "find_first nxt s = nxt s"

partial_function (option) find_last_loop ::
  "('a, 's) streamable \<Rightarrow> 'a option \<Rightarrow> 's \<Rightarrow> ('a option \<times> 's) option" where
  "find_last_loop nxt element s =
     (case element of
        None \<Rightarrow> Some (element, s)
      | Some x \<Rightarrow>
          (case nxt s of
             (None, s') \<Rightarrow> Some (element, s')
           | (Some y, s') \<Rightarrow> find_last_loop nxt (Some y) s'))"

definition find_last :: "('a, 's) streamable \<Rightarrow> 's \<Rightarrow> ('a option \<times> 's) option" where
  "find_last nxt s = (case nxt s of (element, s') \<Rightarrow> find_last_loop nxt element s')"

subsection \<open>\<^verbatim>\<open>reduce\<close> and \<^verbatim>\<open>sum\<close>\<close>

text \<open>
  The \<^verbatim>\<open>while (next)\<close> loop of \<^verbatim>\<open>reduce\<close>: the accumulator becomes
  \<^verbatim>\<open>function(acc, *next)\<close>, then the pipeline is pulled again.
\<close>

partial_function (option) reduce_loop ::
  "('a, 's) streamable \<Rightarrow> ('a \<Rightarrow> 'a \<Rightarrow> 'a) \<Rightarrow> 'a \<Rightarrow> 'a option \<Rightarrow> 's \<Rightarrow> ('a \<times> 's) option" where
  "reduce_loop nxt f acc next_element s =
     (case next_element of
        None \<Rightarrow> Some (acc, s)
      | Some x \<Rightarrow>
          (case nxt s of
             (next_element', s') \<Rightarrow> reduce_loop nxt f (f acc x) next_element' s'))"

definition reduce ::
  "('a, 's) streamable \<Rightarrow> ('a \<Rightarrow> 'a \<Rightarrow> 'a) \<Rightarrow> 's \<Rightarrow> ('a option \<times> 's) option" where
  "reduce nxt f s =
     (case nxt s of
        (None, s1) \<Rightarrow> Some (None, s1)
      | (Some x, s1) \<Rightarrow>
          (case nxt s1 of
             (next_element, s2) \<Rightarrow>
               (case reduce_loop nxt f x next_element s2 of
                  None \<Rightarrow> None
                | Some (acc, s3) \<Rightarrow> Some (Some acc, s3))))"

definition sum_stream :: "('a::plus, 's) streamable \<Rightarrow> 's \<Rightarrow> ('a option \<times> 's) option" where
  "sum_stream nxt s = reduce nxt (\<lambda>a b. a + b) s"

subsection \<open>\<^verbatim>\<open>min\<close> and \<^verbatim>\<open>max\<close>\<close>

text \<open>
  Both have a loop of their own: \<^verbatim>\<open>min\<close> replaces the result by the pulled value when
  \<^verbatim>\<open>value < result\<close>, \<^verbatim>\<open>max\<close> when \<^verbatim>\<open>result < value\<close>. The \<^verbatim>\<open>operator<\<close> of the element
  type is \<open><\<close> of the type class.
\<close>

partial_function (option) min_loop ::
  "('a::ord, 's) streamable \<Rightarrow> 'a \<Rightarrow> 'a option \<Rightarrow> 's \<Rightarrow> ('a \<times> 's) option" where
  "min_loop nxt result element s =
     (case element of
        None \<Rightarrow> Some (result, s)
      | Some v \<Rightarrow>
          (case nxt s of
             (element', s') \<Rightarrow>
               min_loop nxt (if v < result then v else result) element' s'))"

definition min_stream :: "('a::ord, 's) streamable \<Rightarrow> 's \<Rightarrow> ('a option \<times> 's) option" where
  "min_stream nxt s =
     (case nxt s of
        (None, s1) \<Rightarrow> Some (None, s1)
      | (Some x, s1) \<Rightarrow>
          (case nxt s1 of
             (element, s2) \<Rightarrow>
               (case min_loop nxt x element s2 of
                  None \<Rightarrow> None
                | Some (result, s3) \<Rightarrow> Some (Some result, s3))))"

partial_function (option) max_loop ::
  "('a::ord, 's) streamable \<Rightarrow> 'a \<Rightarrow> 'a option \<Rightarrow> 's \<Rightarrow> ('a \<times> 's) option" where
  "max_loop nxt result element s =
     (case element of
        None \<Rightarrow> Some (result, s)
      | Some v \<Rightarrow>
          (case nxt s of
             (element', s') \<Rightarrow>
               max_loop nxt (if result < v then v else result) element' s'))"

definition max_stream :: "('a::ord, 's) streamable \<Rightarrow> 's \<Rightarrow> ('a option \<times> 's) option" where
  "max_stream nxt s =
     (case nxt s of
        (None, s1) \<Rightarrow> Some (None, s1)
      | (Some x, s1) \<Rightarrow>
          (case nxt s1 of
             (element, s2) \<Rightarrow>
               (case max_loop nxt x element s2 of
                  None \<Rightarrow> None
                | Some (result, s3) \<Rightarrow> Some (Some result, s3))))"

subsection \<open>\<^verbatim>\<open>count\<close>\<close>

partial_function (option) count_loop ::
  "('a, 's) streamable \<Rightarrow> size_t \<Rightarrow> 'a option \<Rightarrow> 's \<Rightarrow> (size_t \<times> 's) option" where
  "count_loop nxt result element s =
     (case element of
        None \<Rightarrow> Some (result, s)
      | Some x \<Rightarrow>
          (case nxt s of
             (element', s') \<Rightarrow> count_loop nxt (result + 1) element' s'))"

definition count :: "('a, 's) streamable \<Rightarrow> 's \<Rightarrow> (size_t \<times> 's) option" where
  "count nxt s = (case nxt s of (element, s') \<Rightarrow> count_loop nxt 0 element s')"

subsection \<open>\<^verbatim>\<open>collect\<close>\<close>

text \<open>The target container is a list; \<^verbatim>\<open>push_back\<close> appends at its end.\<close>

partial_function (option) collect_loop ::
  "('a, 's) streamable \<Rightarrow> 'a list \<Rightarrow> 'a option \<Rightarrow> 's \<Rightarrow> ('a list \<times> 's) option" where
  "collect_loop nxt result element s =
     (case element of
        None \<Rightarrow> Some (result, s)
      | Some x \<Rightarrow>
          (case nxt s of
             (element', s') \<Rightarrow> collect_loop nxt (result @ [x]) element' s'))"

definition collect :: "('a, 's) streamable \<Rightarrow> 's \<Rightarrow> ('a list \<times> 's) option" where
  "collect nxt s = (case nxt s of (element, s') \<Rightarrow> collect_loop nxt [] element s')"

subsection \<open>\<^verbatim>\<open>collect_sequence\<close>\<close>

text \<open>
  The fixed-size sequence \<^verbatim>\<open>SEQ<T, EXTENT>\<close> is a list; \<open>result\<close> is the
  default-constructed sequence the function starts from. The loop runs while the pulled
  element is present and \<open>index < EXTENT\<close>: it stores the element at \<open>index\<close>,
  increments \<open>index\<close> and pulls again. It ends after at most \<open>EXTENT\<close> rounds,
  whatever the pipeline does. The loop returns its variables and the pipeline.
\<close>

function collect_sequence_loop ::
  "('a, 's) streamable \<Rightarrow> size_t \<Rightarrow> 'a list \<Rightarrow> 'a option \<Rightarrow> size_t \<Rightarrow> 's
     \<Rightarrow> 'a list \<times> 'a option \<times> size_t \<times> 's" where
  "collect_sequence_loop nxt EXTENT result element index s =
     (case element of
        None \<Rightarrow> (result, element, index, s)
      | Some x \<Rightarrow>
          (if index < EXTENT then
             (case nxt s of
                (element', s') \<Rightarrow>
                  collect_sequence_loop nxt EXTENT (result[unat index := x]) element'
                    (index + 1) s')
           else (result, element, index, s)))"
  by pat_completeness auto
termination
proof (relation "measure (\<lambda>(nxt, EXTENT, result, element, index, s). unat EXTENT - unat index)",
    goal_cases)
  case 1
  show ?case by simp
next
  case (2 nxt EXTENT result element index s x y z)
  from \<open>index < EXTENT\<close> have "unat index < unat EXTENT"
    by (simp add: word_less_nat_alt)
  with word_succ_below(1) [OF \<open>index < EXTENT\<close>] show ?case
    by simp
qed

definition collect_sequence ::
  "('a, 's) streamable \<Rightarrow> size_t \<Rightarrow> 'a list \<Rightarrow> 's \<Rightarrow> 'a list \<times> 's" where
  "collect_sequence nxt EXTENT result s =
     (case nxt s of
        (element, s') \<Rightarrow>
          (case collect_sequence_loop nxt EXTENT result element 0 s' of
             (result', element', index, s1) \<Rightarrow> (result', s1)))"

subsection \<open>\<^verbatim>\<open>collect_to_memory\<close>\<close>

text \<open>
  The memory behind the pointer \<^verbatim>\<open>elements\<close> is a function from the offset to the
  value stored there: \<^verbatim>\<open>*(elements + index) = v\<close> updates it at \<open>index\<close>. The loop
  runs while the pulled element is present and \<open>index < max_count\<close>: it stores the
  element, pulls again, then increments \<open>index\<close>.
\<close>

function collect_to_memory_loop ::
  "('a, 's) streamable \<Rightarrow> size_t \<Rightarrow> (nat \<Rightarrow> 'a) \<Rightarrow> 'a option \<Rightarrow> size_t \<Rightarrow> 's
     \<Rightarrow> (nat \<Rightarrow> 'a) \<times> 'a option \<times> size_t \<times> 's" where
  "collect_to_memory_loop nxt max_count elements element index s =
     (case element of
        None \<Rightarrow> (elements, element, index, s)
      | Some x \<Rightarrow>
          (if index < max_count then
             (case nxt s of
                (element', s') \<Rightarrow>
                  collect_to_memory_loop nxt max_count (elements(unat index := x)) element'
                    (index + 1) s')
           else (elements, element, index, s)))"
  by pat_completeness auto
termination
proof (relation "measure (\<lambda>(nxt, max_count, elements, element, index, s).
    unat max_count - unat index)", goal_cases)
  case 1
  show ?case by simp
next
  case (2 nxt max_count elements element index s x y z)
  from \<open>index < max_count\<close> have "unat index < unat max_count"
    by (simp add: word_less_nat_alt)
  with word_succ_below(1) [OF \<open>index < max_count\<close>] show ?case
    by simp
qed

definition collect_to_memory ::
  "('a, 's) streamable \<Rightarrow> (nat \<Rightarrow> 'a) \<Rightarrow> size_t \<Rightarrow> 's \<Rightarrow> (nat \<Rightarrow> 'a) \<times> 's" where
  "collect_to_memory nxt elements max_count s =
     (case nxt s of
        (element, s') \<Rightarrow>
          (case collect_to_memory_loop nxt max_count elements element 0 s' of
             (elements', element', index, s1) \<Rightarrow> (elements', s1)))"

section \<open>Exhausted pipelines\<close>

text \<open>
  \<open>absent_pulled nxt s\<close>: the pipeline is in the state \<open>s\<close> that a call returning
  Absent left it in.
\<close>

definition absent_pulled :: "('a, 's) streamable \<Rightarrow> 's \<Rightarrow> bool" where
  "absent_pulled nxt s \<longleftrightarrow> (\<exists>s0. nxt s0 = (None, s))"

section \<open>Evaluation of the loops\<close>

text \<open>
  The equations of the loops are used one unfolding at a time in the proofs, and as code
  equations when a pipeline is run on a concrete input.
\<close>

declare skip_loop.simps [simp del]
declare collect_sequence_loop.simps [simp del]
declare collect_to_memory_loop.simps [simp del]
declare find_last_loop.simps [code]
declare reduce_loop.simps [code]
declare min_loop.simps [code]
declare max_loop.simps [code]
declare count_loop.simps [code]
declare collect_loop.simps [code]

section \<open>Sequences of calls\<close>

lemma advance_add: "advance nxt (m + n) s = advance nxt n (advance nxt m s)"
  by (induction m arbitrary: s) simp_all

lemma yields_advance:
  "yields nxt s xs \<Longrightarrow> k \<le> length xs \<Longrightarrow> yields nxt (advance nxt k s) (drop k xs)"
proof (induction k arbitrary: s xs)
  case 0
  then show ?case by simp
next
  case (Suc k)
  then obtain x xs' where xs: "xs = x # xs'"
    by (cases xs) auto
  with Suc.prems Suc.IH [of "snd (nxt s)" xs'] show ?case
    by simp
qed

lemma yields_calls_prefix:
  "yields nxt s xs \<Longrightarrow> k \<le> length xs \<Longrightarrow> calls nxt k s = map Some (take k xs)"
proof (induction k arbitrary: s xs)
  case 0
  show ?case by simp
next
  case (Suc k)
  then obtain x xs' where xs: "xs = x # xs'"
    by (cases xs) auto
  with Suc.prems Suc.IH [of "snd (nxt s)" xs'] show ?case
    by simp
qed

lemma yields_calls:
  "yields nxt s xs \<Longrightarrow> calls nxt (Suc (length xs)) s = map Some xs @ [None]"
  by (induction xs arbitrary: s) simp_all

lemma stable_advance:
  "exhaustion_stable nxt \<Longrightarrow> fst (nxt s) = None \<Longrightarrow> fst (nxt (advance nxt k s)) = None"
proof (induction k arbitrary: s)
  case 0
  then show ?case by simp
next
  case (Suc k)
  from Suc.prems have "fst (nxt (snd (nxt s))) = None"
    by (simp add: exhaustion_stable_def)
  with Suc.prems(1) Suc.IH [of "snd (nxt s)"] show ?case
    by simp
qed

lemma yields_advance_stable:
  assumes "exhaustion_stable nxt" and "yields nxt s xs"
  shows "yields nxt (advance nxt k s) (drop k xs)"
proof (cases "k \<le> length xs")
  case True
  with assms(2) show ?thesis by (rule yields_advance)
next
  case False
  then have k: "k = length xs + (k - length xs)" by simp
  from assms(2) have "yields nxt (advance nxt (length xs) s) []"
    using yields_advance [of nxt s xs "length xs"] by simp
  then have "fst (nxt (advance nxt (length xs) s)) = None"
    by simp
  with assms(1) have "fst (nxt (advance nxt (k - length xs) (advance nxt (length xs) s))) = None"
    by (rule stable_advance)
  then have "fst (nxt (advance nxt (length xs + (k - length xs)) s)) = None"
    by (simp only: advance_add)
  with k have "fst (nxt (advance nxt k s)) = None"
    by simp
  with False show ?thesis by simp
qed

section \<open>The counting source\<close>

lemma counting_calls:
  "cs_count s \<le> cs_max_count s \<Longrightarrow> n = unat (cs_max_count s) - unat (cs_count s) \<Longrightarrow>
   calls CountingStreamable_next (Suc n) s = replicate n (Some (cs_value s)) @ [None]"
proof (induction n arbitrary: s)
  case 0
  then have "cs_count s = cs_max_count s"
    by (simp add: word_le_nat_alt word_unat_eq_iff)
  then show ?case by (simp add: CountingStreamable_next_def)
next
  case (Suc n)
  then have lt: "cs_count s < cs_max_count s"
    by (simp add: word_less_nat_alt)
  let ?s' = "s\<lparr>cs_count := cs_count s + 1\<rparr>"
  have "calls CountingStreamable_next (Suc n) ?s' = replicate n (Some (cs_value ?s')) @ [None]"
    using Suc.prems word_succ_below [OF lt] by (intro Suc.IH) simp_all
  moreover have "CountingStreamable_next s = (Some (cs_value s), ?s')"
    using lt by (simp add: CountingStreamable_next_def)
  ultimately show ?case by simp
qed

lemma counting_next_fields:
  "cs_value (snd (CountingStreamable_next s)) = cs_value s"
  "cs_max_count (snd (CountingStreamable_next s)) = cs_max_count s"
  "snd (CountingStreamable_next s) = s\<lparr>cs_count := cs_count (snd (CountingStreamable_next s))\<rparr>"
  "fst (CountingStreamable_next s) = None \<or> fst (CountingStreamable_next s) = Some (cs_value s)"
  by (simp_all add: CountingStreamable_next_def)

lemma counting_calls_value:
  "set (calls CountingStreamable_next n s) \<subseteq> {None, Some (cs_value s)}"
proof (induction n arbitrary: s)
  case 0
  show ?case by simp
next
  case (Suc n)
  from Suc.IH [of "snd (CountingStreamable_next s)"] counting_next_fields(4) [of s]
  show ?case
    by (auto simp: counting_next_fields(1))
qed

section \<open>Sources keep returning Absent\<close>

lemma absent_forever:
  assumes "\<And>s. fst (nxt s) = None \<Longrightarrow> snd (nxt s) = s"
  shows "fst (nxt s) = None \<Longrightarrow> calls nxt n s = replicate n None \<and> advance nxt n s = s"
  using assms by (induction n) simp_all

lemma counting_absent_unchanged:
  "fst (CountingStreamable_next s) = None \<Longrightarrow> snd (CountingStreamable_next s) = s"
  by (simp add: CountingStreamable_next_def split: if_splits)

lemma supplier_absent_unchanged:
  "fst (RefSupplier_get_next deref incr s) = None \<Longrightarrow> snd (RefSupplier_get_next deref incr s) = s"
  by (simp add: RefSupplier_get_next_def split: if_splits)

lemma counting_stable: "exhaustion_stable CountingStreamable_next"
  by (simp add: exhaustion_stable_def counting_absent_unchanged)

lemma supplier_stable: "exhaustion_stable (RefSupplier_get_next deref incr)"
  by (simp add: exhaustion_stable_def supplier_absent_unchanged)

section \<open>The draining loops on a finite stream\<close>

lemma count_loop_yields:
  "yields nxt s xs \<Longrightarrow>
   count_loop nxt r (fst (nxt s)) (snd (nxt s))
     = Some (r + of_nat (length xs), advance nxt (Suc (length xs)) s)"
proof (induction xs arbitrary: s r)
  case Nil
  then show ?case by (subst count_loop.simps) simp
next
  case (Cons x xs)
  from Cons.prems have "fst (nxt s) = Some x" "yields nxt (snd (nxt s)) xs"
    by simp_all
  with Cons.IH [of "snd (nxt s)" "r + 1"] show ?case
    by (subst count_loop.simps) (simp add: case_prod_beta ac_simps)
qed

lemma reduce_loop_yields:
  "yields nxt s xs \<Longrightarrow>
   reduce_loop nxt f acc (fst (nxt s)) (snd (nxt s))
     = Some (foldl f acc xs, advance nxt (Suc (length xs)) s)"
proof (induction xs arbitrary: s acc)
  case Nil
  then show ?case by (subst reduce_loop.simps) simp
next
  case (Cons x xs)
  from Cons.prems have "fst (nxt s) = Some x" "yields nxt (snd (nxt s)) xs"
    by simp_all
  with Cons.IH [of "snd (nxt s)" "f acc x"] show ?case
    by (subst reduce_loop.simps) (simp add: case_prod_beta)
qed

lemma collect_loop_yields:
  "yields nxt s xs \<Longrightarrow>
   collect_loop nxt result (fst (nxt s)) (snd (nxt s))
     = Some (result @ xs, advance nxt (Suc (length xs)) s)"
proof (induction xs arbitrary: s result)
  case Nil
  then show ?case by (subst collect_loop.simps) simp
next
  case (Cons x xs)
  from Cons.prems have "fst (nxt s) = Some x" "yields nxt (snd (nxt s)) xs"
    by simp_all
  with Cons.IH [of "snd (nxt s)" "result @ [x]"] show ?case
    by (subst collect_loop.simps) (simp add: case_prod_beta)
qed

lemma find_last_loop_yields:
  "yields nxt s xs \<Longrightarrow>
   find_last_loop nxt (Some x) s
     = Some (Some (last (x # xs)), advance nxt (Suc (length xs)) s)"
proof (induction xs arbitrary: s x)
  case Nil
  then show ?case
    by (subst find_last_loop.simps) (simp add: case_prod_beta split: option.splits)
next
  case (Cons y ys)
  from Cons.prems have "fst (nxt s) = Some y" "yields nxt (snd (nxt s)) ys"
    by simp_all
  with Cons.IH [of "snd (nxt s)" y] show ?case
    by (subst find_last_loop.simps) (simp add: case_prod_beta)
qed

lemma count_yields:
  "yields nxt s xs \<Longrightarrow>
   count nxt s = Some (of_nat (length xs), advance nxt (Suc (length xs)) s)"
  using count_loop_yields [of nxt s xs 0] by (simp add: count_def case_prod_beta)

lemma collect_yields:
  "yields nxt s xs \<Longrightarrow> collect nxt s = Some (xs, advance nxt (Suc (length xs)) s)"
  using collect_loop_yields [of nxt s xs "[]"] by (simp add: collect_def case_prod_beta)

lemma reduce_yields_Nil:
  "yields nxt s [] \<Longrightarrow> reduce nxt f s = Some (None, advance nxt (Suc 0) s)"
  by (simp add: reduce_def case_prod_beta)

lemma reduce_yields_Cons:
  "yields nxt s (x # xs) \<Longrightarrow>
   reduce nxt f s = Some (Some (foldl f x xs), advance nxt (Suc (Suc (length xs))) s)"
  using reduce_loop_yields [of nxt "snd (nxt s)" xs f x]
  by (simp add: reduce_def case_prod_beta)

lemma find_last_yields_Nil:
  "yields nxt s [] \<Longrightarrow> find_last nxt s = Some (None, advance nxt (Suc 0) s)"
  by (simp add: find_last_def case_prod_beta find_last_loop.simps)

lemma find_last_yields_Cons:
  "yields nxt s (x # xs) \<Longrightarrow>
   find_last nxt s = Some (Some (last (x # xs)), advance nxt (Suc (Suc (length xs))) s)"
  using find_last_loop_yields [of nxt "snd (nxt s)" xs x]
  by (simp add: find_last_def case_prod_beta)

section \<open>A drained pipeline has just returned Absent\<close>

lemma count_loop_absent_pulled:
  "count_loop nxt r e s = Some y \<Longrightarrow> nxt s0 = (e, s) \<Longrightarrow> absent_pulled nxt (snd y)"
proof (induction arbitrary: s0 rule: count_loop.raw_induct [rotated 1, consumes 1])
  case (1 count_loop' nxt r e s y)
  show ?case
  proof (cases e)
    case None
    with 1(2,3) show ?thesis
      by (auto simp: absent_pulled_def)
  next
    case (Some x)
    with 1(2) have "count_loop' nxt (r + 1) (fst (nxt s)) (snd (nxt s)) = Some y"
      by (simp add: case_prod_beta)
    then show ?thesis
      by (rule 1(1)) simp
  qed
qed

lemma count_absent_pulled: "count nxt s = Some (n, s') \<Longrightarrow> absent_pulled nxt s'"
  using count_loop_absent_pulled [of nxt 0 "fst (nxt s)" "snd (nxt s)" "(n, s')" s]
  by (simp add: count_def case_prod_beta)

lemma reduce_loop_absent_pulled:
  "reduce_loop nxt f acc e s = Some y \<Longrightarrow> nxt s0 = (e, s) \<Longrightarrow> absent_pulled nxt (snd y)"
proof (induction arbitrary: s0 rule: reduce_loop.raw_induct [rotated 1, consumes 1])
  case (1 reduce_loop' nxt f acc e s y)
  show ?case
  proof (cases e)
    case None
    with 1(2,3) show ?thesis
      by (auto simp: absent_pulled_def)
  next
    case (Some x)
    with 1(2) have "reduce_loop' nxt f (f acc x) (fst (nxt s)) (snd (nxt s)) = Some y"
      by (simp add: case_prod_beta)
    then show ?thesis
      by (rule 1(1)) simp
  qed
qed

lemma reduce_absent_pulled:
  assumes "reduce nxt f s = Some (r, s')"
  shows "absent_pulled nxt s'"
proof (cases "fst (nxt s)")
  case None
  with assms have "nxt s = (None, s')"
    by (simp add: reduce_def case_prod_beta prod_eq_iff)
  then show ?thesis
    by (auto simp: absent_pulled_def)
next
  case (Some x)
  let ?s1 = "snd (nxt s)"
  from assms Some obtain acc where
    "reduce_loop nxt f x (fst (nxt ?s1)) (snd (nxt ?s1)) = Some (acc, s')"
    by (auto simp: reduce_def case_prod_beta split: option.splits)
  from reduce_loop_absent_pulled [OF this, of ?s1] show ?thesis
    by simp
qed

lemma collect_loop_absent_pulled:
  "collect_loop nxt result e s = Some y \<Longrightarrow> nxt s0 = (e, s) \<Longrightarrow> absent_pulled nxt (snd y)"
proof (induction arbitrary: s0 rule: collect_loop.raw_induct [rotated 1, consumes 1])
  case (1 collect_loop' nxt result e s y)
  show ?case
  proof (cases e)
    case None
    with 1(2,3) show ?thesis
      by (auto simp: absent_pulled_def)
  next
    case (Some x)
    with 1(2) have "collect_loop' nxt (result @ [x]) (fst (nxt s)) (snd (nxt s)) = Some y"
      by (simp add: case_prod_beta)
    then show ?thesis
      by (rule 1(1)) simp
  qed
qed

lemma collect_absent_pulled: "collect nxt s = Some (c, s') \<Longrightarrow> absent_pulled nxt s'"
  using collect_loop_absent_pulled [of nxt "[]" "fst (nxt s)" "snd (nxt s)" "(c, s')" s]
  by (simp add: collect_def case_prod_beta)

lemma find_last_loop_absent_pulled:
  "find_last_loop nxt e s = Some y \<Longrightarrow> nxt s0 = (e, s) \<Longrightarrow> absent_pulled nxt (snd y)"
proof (induction arbitrary: s0 rule: find_last_loop.raw_induct [rotated 1, consumes 1])
  case (1 find_last_loop' nxt e s y)
  show ?case
  proof (cases e)
    case None
    with 1(2,3) show ?thesis
      by (auto simp: absent_pulled_def)
  next
    case (Some x)
    show ?thesis
    proof (cases "fst (nxt s)")
      case None
      with Some 1(2) have "nxt s = (None, snd y)"
        by (auto simp: case_prod_beta prod_eq_iff)
      then show ?thesis
        by (auto simp: absent_pulled_def)
    next
      case (Some z)
      with \<open>e = Some x\<close> 1(2) have "find_last_loop' nxt (Some z) (snd (nxt s)) = Some y"
        by (simp add: case_prod_beta)
      moreover from Some have "nxt s = (Some z, snd (nxt s))"
        by (simp add: prod_eq_iff)
      ultimately show ?thesis
        by (rule 1(1))
    qed
  qed
qed

lemma find_last_absent_pulled: "find_last nxt s = Some (l, s') \<Longrightarrow> absent_pulled nxt s'"
  using find_last_loop_absent_pulled [of nxt "fst (nxt s)" "snd (nxt s)" "(l, s')" s]
  by (simp add: find_last_def case_prod_beta)

lemma stable_after_absent:
  "exhaustion_stable nxt \<Longrightarrow> absent_pulled nxt s \<Longrightarrow> yields nxt s []"
proof -
  assume stable: "exhaustion_stable nxt" and "absent_pulled nxt s"
  then obtain s0 where "nxt s0 = (None, s)"
    by (auto simp: absent_pulled_def)
  then have "fst (nxt s0) = None" "snd (nxt s0) = s"
    by simp_all
  with stable show ?thesis
    by (auto simp: exhaustion_stable_def)
qed

section \<open>\<^verbatim>\<open>min\<close> and \<^verbatim>\<open>max\<close> as instances of \<^verbatim>\<open>reduce\<close>\<close>

lemma min_loop_le_reduce_loop:
  "min_loop nxt result element s = Some y \<Longrightarrow>
   reduce_loop nxt (\<lambda>a b. if b < a then b else a) result element s = Some y"
proof (induction rule: min_loop.raw_induct [rotated 1, consumes 1])
  case (1 min_loop' nxt result element s y)
  show ?case
  proof (cases element)
    case None
    with 1(2) show ?thesis
      by (subst reduce_loop.simps) simp
  next
    case (Some v)
    with 1(2) have "min_loop' nxt (if v < result then v else result) (fst (nxt s)) (snd (nxt s)) = Some y"
      by (simp add: case_prod_beta)
    then have "reduce_loop nxt (\<lambda>a b. if b < a then b else a) (if v < result then v else result)
        (fst (nxt s)) (snd (nxt s)) = Some y"
      by (rule 1(1))
    with Some show ?thesis
      by (subst reduce_loop.simps) (simp add: case_prod_beta)
  qed
qed

lemma reduce_loop_le_min_loop:
  "reduce_loop nxt f result element s = Some y \<Longrightarrow> f = (\<lambda>a b. if b < a then b else a) \<Longrightarrow>
   min_loop nxt result element s = Some y"
proof (induction rule: reduce_loop.raw_induct [rotated 1, consumes 1])
  case (1 reduce_loop' nxt f result element s y)
  show ?case
  proof (cases element)
    case None
    with 1(2) show ?thesis
      by (subst min_loop.simps) simp
  next
    case (Some v)
    with 1(2) have "reduce_loop' nxt f (f result v) (fst (nxt s)) (snd (nxt s)) = Some y"
      by (simp add: case_prod_beta)
    then have "min_loop nxt (f result v) (fst (nxt s)) (snd (nxt s)) = Some y"
      using 1(3) by (rule 1(1))
    with Some 1(3) show ?thesis
      by (subst min_loop.simps) (simp add: case_prod_beta)
  qed
qed

lemma min_loop_eq_reduce_loop:
  "min_loop nxt result element s
     = reduce_loop nxt (\<lambda>a b. if b < a then b else a) result element s"
proof (cases "min_loop nxt result element s")
  case (Some y)
  then show ?thesis
    by (simp add: min_loop_le_reduce_loop)
next
  case None
  show ?thesis
  proof (cases "reduce_loop nxt (\<lambda>a b. if b < a then b else a) result element s")
    case None
    with \<open>min_loop nxt result element s = None\<close> show ?thesis
      by simp
  next
    case (Some y)
    then have "min_loop nxt result element s = Some y"
      by (rule reduce_loop_le_min_loop) (rule refl)
    with None show ?thesis
      by simp
  qed
qed

lemma min_stream_eq_reduce:
  "min_stream nxt s = reduce nxt (\<lambda>a b. if b < a then b else a) s"
  unfolding min_stream_def reduce_def min_loop_eq_reduce_loop
  by (rule refl)

lemma max_loop_le_reduce_loop:
  "max_loop nxt result element s = Some y \<Longrightarrow>
   reduce_loop nxt (\<lambda>a b. if a < b then b else a) result element s = Some y"
proof (induction rule: max_loop.raw_induct [rotated 1, consumes 1])
  case (1 max_loop' nxt result element s y)
  show ?case
  proof (cases element)
    case None
    with 1(2) show ?thesis
      by (subst reduce_loop.simps) simp
  next
    case (Some v)
    with 1(2) have "max_loop' nxt (if result < v then v else result) (fst (nxt s)) (snd (nxt s)) = Some y"
      by (simp add: case_prod_beta)
    then have "reduce_loop nxt (\<lambda>a b. if a < b then b else a) (if result < v then v else result)
        (fst (nxt s)) (snd (nxt s)) = Some y"
      by (rule 1(1))
    with Some show ?thesis
      by (subst reduce_loop.simps) (simp add: case_prod_beta)
  qed
qed

lemma reduce_loop_le_max_loop:
  "reduce_loop nxt f result element s = Some y \<Longrightarrow> f = (\<lambda>a b. if a < b then b else a) \<Longrightarrow>
   max_loop nxt result element s = Some y"
proof (induction rule: reduce_loop.raw_induct [rotated 1, consumes 1])
  case (1 reduce_loop' nxt f result element s y)
  show ?case
  proof (cases element)
    case None
    with 1(2) show ?thesis
      by (subst max_loop.simps) simp
  next
    case (Some v)
    with 1(2) have "reduce_loop' nxt f (f result v) (fst (nxt s)) (snd (nxt s)) = Some y"
      by (simp add: case_prod_beta)
    then have "max_loop nxt (f result v) (fst (nxt s)) (snd (nxt s)) = Some y"
      using 1(3) by (rule 1(1))
    with Some 1(3) show ?thesis
      by (subst max_loop.simps) (simp add: case_prod_beta)
  qed
qed

lemma max_loop_eq_reduce_loop:
  "max_loop nxt result element s
     = reduce_loop nxt (\<lambda>a b. if a < b then b else a) result element s"
proof (cases "max_loop nxt result element s")
  case (Some y)
  then show ?thesis
    by (simp add: max_loop_le_reduce_loop)
next
  case None
  show ?thesis
  proof (cases "reduce_loop nxt (\<lambda>a b. if a < b then b else a) result element s")
    case None
    with \<open>max_loop nxt result element s = None\<close> show ?thesis
      by simp
  next
    case (Some y)
    then have "max_loop nxt result element s = Some y"
      by (rule reduce_loop_le_max_loop) (rule refl)
    with None show ?thesis
      by simp
  qed
qed

lemma max_stream_eq_reduce:
  "max_stream nxt s = reduce nxt (\<lambda>a b. if a < b then b else a) s"
  unfolding max_stream_def reduce_def max_loop_eq_reduce_loop
  by (rule refl)

section \<open>\<^verbatim>\<open>skip\<close> and the bounded loops on a finite stream\<close>

lemma skip_loop_yields:
  "yields nxt s xs \<Longrightarrow>
   skip_loop nxt i n s = advance nxt (min (unat n - unat i) (Suc (length xs))) s"
proof (induction xs arbitrary: s i)
  case Nil
  show ?case
  proof (cases "i < n")
    case True
    then have "0 < unat n - unat i"
      by (simp add: word_less_nat_alt)
    then have "min (unat n - unat i) (Suc 0) = Suc 0"
      by simp
    with True Nil show ?thesis
      by (subst skip_loop.simps) (simp add: case_prod_beta)
  next
    case False
    then have "unat n - unat i = 0"
      by (simp add: word_less_nat_alt)
    with False show ?thesis
      by (subst skip_loop.simps) simp
  qed
next
  case (Cons x xs)
  show ?case
  proof (cases "i < n")
    case True
    then have lt: "unat i < unat n"
      by (simp add: word_less_nat_alt)
    from Cons.prems have x: "fst (nxt s) = Some x" and rest: "yields nxt (snd (nxt s)) xs"
      by simp_all
    have "min (unat n - unat i) (Suc (Suc (length xs)))
        = Suc (min (unat n - unat (i + 1)) (Suc (length xs)))"
      using lt word_succ_below(1) [OF True] by simp
    with True x Cons.IH [OF rest, of "i + 1"] show ?thesis
      by (subst skip_loop.simps) (simp add: case_prod_beta)
  next
    case False
    then have "unat n - unat i = 0"
      by (simp add: word_less_nat_alt)
    with False show ?thesis
      by (subst skip_loop.simps) simp
  qed
qed

lemma skip_yields:
  "yields nxt s xs \<Longrightarrow> skip nxt n s = advance nxt (min (unat n) (Suc (length xs))) s"
  using skip_loop_yields [of nxt s xs 0 n] by (simp add: skip_def)

lemma empty_window: "(\<lambda>i. if (a::nat) \<le> i \<and> i < a then f i else g i) = g"
  by (rule ext) auto

lemma collect_to_memory_loop_yields:
  "yields nxt s xs \<Longrightarrow> m = min (length xs) (unat cap - unat index) \<Longrightarrow>
   collect_to_memory_loop nxt cap mem (fst (nxt s)) index (snd (nxt s)) =
     ((\<lambda>i. if unat index \<le> i \<and> i < unat index + m then xs ! (i - unat index) else mem i),
      (if m < length xs then Some (xs ! m) else None),
      index + of_nat m,
      advance nxt (Suc m) s)"
proof (induction xs arbitrary: s mem index m)
  case Nil
  then show ?case
    by (subst collect_to_memory_loop.simps) (simp add: empty_window)
next
  case (Cons x xs)
  from Cons.prems have x: "fst (nxt s) = Some x" and rest: "yields nxt (snd (nxt s)) xs"
    by simp_all
  show ?case
  proof (cases "index < cap")
    case True
    then have lt: "unat index < unat cap"
      by (simp add: word_less_nat_alt)
    note suc = word_succ_below(1) [OF True]
    define m' where "m' = min (length xs) (unat cap - unat (index + 1))"
    with Cons.prems(2) lt suc have m: "m = Suc m'"
      by simp
    have mem: "(\<lambda>i. if unat (index + 1) \<le> i \<and> i < unat (index + 1) + m'
                 then xs ! (i - unat (index + 1)) else (mem(unat index := x)) i)
             = (\<lambda>i. if unat index \<le> i \<and> i < unat index + m
                 then (x # xs) ! (i - unat index) else mem i)"
      by (rule ext) (auto simp: suc m nth_Cons' Suc_diff_le)
    have "collect_to_memory_loop nxt cap mem (fst (nxt s)) index (snd (nxt s))
        = collect_to_memory_loop nxt cap (mem(unat index := x))
            (fst (nxt (snd (nxt s)))) (index + 1) (snd (nxt (snd (nxt s))))"
      using True x by (subst collect_to_memory_loop.simps) (simp add: case_prod_beta)
    also have "\<dots> =
       ((\<lambda>i. if unat (index + 1) \<le> i \<and> i < unat (index + 1) + m'
                 then xs ! (i - unat (index + 1)) else (mem(unat index := x)) i),
        (if m' < length xs then Some (xs ! m') else None),
        index + 1 + of_nat m',
        advance nxt (Suc m') (snd (nxt s)))"
      by (rule Cons.IH [OF rest m'_def])
    also have "\<dots> =
       ((\<lambda>i. if unat index \<le> i \<and> i < unat index + m
                 then (x # xs) ! (i - unat index) else mem i),
        (if m < length (x # xs) then Some ((x # xs) ! m) else None),
        index + of_nat m,
        advance nxt (Suc m) s)"
      by (simp only: mem) (simp add: m ac_simps)
    finally show ?thesis .
  next
    case False
    then have "unat cap - unat index = 0"
      by (simp add: word_less_nat_alt)
    with Cons.prems(2) have "m = 0"
      by simp
    with False x show ?thesis
      by (subst collect_to_memory_loop.simps) (simp add: empty_window)
  qed
qed

lemma map_agrees: "\<forall>j < length result. mem j = result ! j \<Longrightarrow> map mem [0..<length result] = result"
  by (rule nth_equalityI) simp_all

lemma collect_sequence_loop_as_memory:
  "\<forall>j < length result. mem j = result ! j \<Longrightarrow>
   collect_sequence_loop nxt cap result e idx s =
     (case collect_to_memory_loop nxt cap mem e idx s of
        (mem', e', idx', s') \<Rightarrow> (map mem' [0..<length result], e', idx', s'))"
proof (induction nxt cap result e idx s arbitrary: mem rule: collect_sequence_loop.induct)
  case (1 nxt cap result e idx s)
  show ?case
  proof (cases e)
    case None
    with 1(2) show ?thesis
      by (subst collect_sequence_loop.simps, subst collect_to_memory_loop.simps)
        (simp add: map_agrees)
  next
    case (Some x)
    show ?thesis
    proof (cases "idx < cap")
      case True
      have upd: "\<forall>j < length (result[unat idx := x]).
          (mem(unat idx := x)) j = result[unat idx := x] ! j"
        using 1(2) by (simp add: nth_list_update)
      have l: "collect_sequence_loop nxt cap result e idx s
          = collect_sequence_loop nxt cap (result[unat idx := x])
              (fst (nxt s)) (idx + 1) (snd (nxt s))"
        using Some True by (subst collect_sequence_loop.simps) (simp add: case_prod_beta)
      have r: "collect_to_memory_loop nxt cap mem e idx s
          = collect_to_memory_loop nxt cap (mem(unat idx := x))
              (fst (nxt s)) (idx + 1) (snd (nxt s))"
        using Some True by (subst collect_to_memory_loop.simps) (simp add: case_prod_beta)
      have "collect_sequence_loop nxt cap (result[unat idx := x])
              (fst (nxt s)) (idx + 1) (snd (nxt s)) =
            (case collect_to_memory_loop nxt cap (mem(unat idx := x))
                (fst (nxt s)) (idx + 1) (snd (nxt s)) of
              (mem', e', idx', s') \<Rightarrow> (map mem' [0..<length result], e', idx', s'))"
        using 1(1) [OF Some True prod.collapse upd] by (simp only: length_list_update)
      then show ?thesis
        by (simp only: l r)
    next
      case False
      with Some 1(2) show ?thesis
        by (subst collect_sequence_loop.simps, subst collect_to_memory_loop.simps)
          (simp add: map_agrees)
    qed
  qed
qed

lemma collect_to_memory_yields:
  assumes "yields nxt s xs" and "m = min (length xs) (unat cap)"
  shows "collect_to_memory_loop nxt cap mem (fst (nxt s)) 0 (snd (nxt s)) =
     ((\<lambda>i. if i < m then xs ! i else mem i),
      (if m < length xs then Some (xs ! m) else None),
      of_nat m,
      advance nxt (Suc m) s)"
proof -
  have "m = min (length xs) (unat cap - unat (0::size_t))"
    using assms(2) by simp
  from collect_to_memory_loop_yields [OF assms(1) this, of mem] show ?thesis
    by (simp cong: if_cong)
qed

lemma take_drop_window:
  "m \<le> length xs \<Longrightarrow> m \<le> length result \<Longrightarrow>
   map (\<lambda>i. if i < m then xs ! i else result ! i) [0..<length result] = take m xs @ drop m result"
  by (rule nth_equalityI) (auto simp: nth_append)

lemma collect_sequence_yields:
  assumes "yields nxt s xs" and "m = min (length xs) (unat cap)" and "length result = unat cap"
  shows "collect_sequence_loop nxt cap result (fst (nxt s)) 0 (snd (nxt s)) =
     (take m xs @ drop m result,
      (if m < length xs then Some (xs ! m) else None),
      of_nat m,
      advance nxt (Suc m) s)"
proof -
  have "collect_sequence_loop nxt cap result (fst (nxt s)) 0 (snd (nxt s)) =
     (map (\<lambda>i. if i < m then xs ! i else result ! i) [0..<length result],
      (if m < length xs then Some (xs ! m) else None),
      of_nat m,
      advance nxt (Suc m) s)"
    by (subst collect_sequence_loop_as_memory [where mem = "(!) result"])
      (simp_all add: collect_to_memory_yields [OF assms(1,2)])
  moreover from assms(2,3) have "m \<le> length xs" "m \<le> length result"
    by simp_all
  ultimately show ?thesis
    by (simp only: take_drop_window)
qed

lemma collect_sequence_loop_state:
  "snd (collect_sequence_loop nxt cap result e idx s)
     = snd (collect_to_memory_loop nxt cap ((!) result) e idx s)"
  by (subst collect_sequence_loop_as_memory [where mem = "(!) result"])
    (simp_all add: case_prod_beta)

section \<open>Chaining\<close>

lemma chain_next_first:
  "fst (nxt1 (chain_first c)) = Some x \<Longrightarrow>
   ChainingStream_next nxt1 nxt2 c = (Some x, c\<lparr>chain_first := snd (nxt1 (chain_first c))\<rparr>)"
  by (simp add: ChainingStream_next_def case_prod_beta)

lemma chain_next_second:
  "fst (nxt1 (chain_first c)) = None \<Longrightarrow>
   ChainingStream_next nxt1 nxt2 c =
     (fst (nxt2 (chain_second c)),
      \<lparr>chain_first = snd (nxt1 (chain_first c)), chain_second = snd (nxt2 (chain_second c))\<rparr>)"
  by (simp add: ChainingStream_next_def case_prod_beta)

lemma chain_yields_second:
  "exhaustion_stable nxt1 \<Longrightarrow> fst (nxt1 a) = None \<Longrightarrow> yields nxt2 b ys \<Longrightarrow>
   yields (ChainingStream_next nxt1 nxt2) \<lparr>chain_first = a, chain_second = b\<rparr> ys"
proof (induction ys arbitrary: a b)
  case Nil
  then show ?case
    by (simp add: chain_next_second)
next
  case (Cons y ys)
  from Cons.prems(1,2) have "fst (nxt1 (snd (nxt1 a))) = None"
    by (simp add: exhaustion_stable_def)
  with Cons.prems Cons.IH [of "snd (nxt1 a)" "snd (nxt2 b)"] show ?case
    by (simp add: chain_next_second)
qed

lemma chain_yields:
  "exhaustion_stable nxt1 \<Longrightarrow> yields nxt1 a xs \<Longrightarrow> yields nxt2 b ys \<Longrightarrow>
   yields (ChainingStream_next nxt1 nxt2) \<lparr>chain_first = a, chain_second = b\<rparr> (xs @ ys)"
proof (induction xs arbitrary: a)
  case Nil
  then show ?case
    by (simp add: chain_yields_second)
next
  case (Cons x xs)
  with Cons.IH [of "snd (nxt1 a)"] show ?case
    by (simp add: chain_next_first)
qed

lemma chain_second_untouched:
  "yields nxt1 a xs \<Longrightarrow> k \<le> length xs \<Longrightarrow>
   chain_second (advance (ChainingStream_next nxt1 nxt2) k \<lparr>chain_first = a, chain_second = b\<rparr>) = b"
proof (induction k arbitrary: a xs)
  case 0
  show ?case by simp
next
  case (Suc k)
  then obtain x xs' where xs: "xs = x # xs'"
    by (cases xs) auto
  with Suc.prems Suc.IH [of "snd (nxt1 a)" xs'] show ?case
    by (simp add: chain_next_first)
qed

section \<open>Folds of \<^verbatim>\<open>operator<\<close> over a total order\<close>

lemma foldl_min_Min:
  fixes x :: "'a::linorder"
  shows "foldl (\<lambda>a b. if b < a then b else a) x xs = Min (set (x # xs))"
proof -
  have "(\<lambda>b a. if b < a then b else a) = (min :: 'a \<Rightarrow> 'a \<Rightarrow> 'a)"
    by (auto simp: fun_eq_iff min_def)
  then show ?thesis
    unfolding foldl_conv_fold Min.set_eq_fold by simp
qed

lemma foldl_max_Max:
  fixes x :: "'a::linorder"
  shows "foldl (\<lambda>a b. if a < b then b else a) x xs = Max (set (x # xs))"
proof -
  have "(\<lambda>b a. if a < b then b else a) = (max :: 'a \<Rightarrow> 'a \<Rightarrow> 'a)"
    by (auto simp: fun_eq_iff max_def)
  then show ?thesis
    unfolding foldl_conv_fold Max.set_eq_fold by simp
qed

section \<open>Terminal operations on a pipeline that returns Absent\<close>

lemma absent_terminal_results:
  fixes nxt :: "('a::{plus,ord}, 's) streamable"
  assumes "fst (nxt s) = None"
  shows "count nxt s = Some (0, snd (nxt s))"
    and "reduce nxt g s = Some (None, snd (nxt s))"
    and "sum_stream nxt s = Some (None, snd (nxt s))"
    and "min_stream nxt s = Some (None, snd (nxt s))"
    and "max_stream nxt s = Some (None, snd (nxt s))"
    and "find_first nxt s = (None, snd (nxt s))"
    and "find_last nxt s = Some (None, snd (nxt s))"
    and "collect nxt s = Some ([], snd (nxt s))"
    and "collect_sequence nxt EXTENT result s = (result, snd (nxt s))"
    and "collect_to_memory nxt elements max_count s = (elements, snd (nxt s))"
proof -
  from assms have y: "yields nxt s []"
    by simp
  show "count nxt s = Some (0, snd (nxt s))"
    using count_yields [OF y] by simp
  show r: "reduce nxt g s = Some (None, snd (nxt s))" for g
    using reduce_yields_Nil [OF y] by simp
  show "sum_stream nxt s = Some (None, snd (nxt s))"
    by (simp only: sum_stream_def r)
  show "min_stream nxt s = Some (None, snd (nxt s))"
    by (simp only: min_stream_eq_reduce r)
  show "max_stream nxt s = Some (None, snd (nxt s))"
    by (simp only: max_stream_eq_reduce r)
  show "find_first nxt s = (None, snd (nxt s))"
    using assms by (simp add: find_first_def prod_eq_iff)
  show "find_last nxt s = Some (None, snd (nxt s))"
    using find_last_yields_Nil [OF y] by simp
  show "collect nxt s = Some ([], snd (nxt s))"
    using collect_yields [OF y] by simp
  show "collect_sequence nxt EXTENT result s = (result, snd (nxt s))"
    using assms by (simp add: collect_sequence_def case_prod_beta collect_sequence_loop.simps)
  show "collect_to_memory nxt elements max_count s = (elements, snd (nxt s))"
    using assms by (simp add: collect_to_memory_def case_prod_beta collect_to_memory_loop.simps)
qed

section \<open>The claims of the specification\<close>

subsection \<open>The counting source\<close>

text \<open>
  Claim C1. The counting source constructed with value \<open>v\<close> and count \<open>k\<close>: each of the
  first \<open>k\<close> calls to \<^verbatim>\<open>next\<close> returns Present(\<open>v\<close>), and the call after them returns
  Absent. The \<open>k + 1\<close> first calls return \<open>k\<close> times \<open>Some v\<close>, then \<open>None\<close>; the
  count is a \<^verbatim>\<open>size_t\<close>, read by \<open>unat\<close>.
\<close>

theorem counting_first_k_then_absent:
  "calls CountingStreamable_next (Suc (unat k)) (new_CountingStreamable v k)
     = replicate (unat k) (Some v) @ [None]"
  using counting_calls [of "new_CountingStreamable v k" "unat k"]
  by (simp add: new_CountingStreamable_def)

text \<open>
  Claim C9. A call to \<^verbatim>\<open>next\<close> of the counting source leaves the stored value and the
  maximum count as they are and changes the counter at most; so whatever number of calls
  is made on a source constructed with the value \<open>v\<close>, every result that is present is
  \<open>Some v\<close>.
\<close>

theorem counting_next_frame:
  "cs_value (snd (CountingStreamable_next s)) = cs_value s \<and>
   cs_max_count (snd (CountingStreamable_next s)) = cs_max_count s \<and>
   (\<exists>c. snd (CountingStreamable_next s) = s\<lparr>cs_count := c\<rparr>) \<and>
   (\<forall>n. \<forall>r \<in> set (calls CountingStreamable_next n (new_CountingStreamable v k)).
      r = None \<or> r = Some v)"
proof -
  have "\<exists>c. snd (CountingStreamable_next s) = s\<lparr>cs_count := c\<rparr>"
    by (rule exI [where x = "cs_count (snd (CountingStreamable_next s))"])
      (rule counting_next_fields(3))
  moreover have "\<forall>n. \<forall>r \<in> set (calls CountingStreamable_next n (new_CountingStreamable v k)).
      r = None \<or> r = Some v"
  proof (intro allI ballI)
    fix n r
    assume "r \<in> set (calls CountingStreamable_next n (new_CountingStreamable v k))"
    with counting_calls_value [of n "new_CountingStreamable v k"]
    have "r \<in> {None, Some (cs_value (new_CountingStreamable v k))}"
      by (rule subsetD)
    then show "r = None \<or> r = Some v"
      by (simp add: new_CountingStreamable_def)
  qed
  ultimately show ?thesis
    by (simp add: counting_next_fields(1,2))
qed

theorem counting_next_frame_witness:
  "Some 5 \<in> set (calls CountingStreamable_next 4 (new_CountingStreamable (5::int) 2)) \<and>
   set (calls CountingStreamable_next 4 (new_CountingStreamable (5::int) 2)) \<subseteq> {None, Some 5} \<and>
   cs_value (snd (CountingStreamable_next (new_CountingStreamable (5::int) 2))) = 5"
proof -
  note frame = counting_next_frame [of "new_CountingStreamable (5::int) 2" "5::int" 2]
  have "calls CountingStreamable_next 4 (new_CountingStreamable (5::int) 2)
          = [Some 5, Some 5, None, None]"
    by code_simp
  then have "Some 5 \<in> set (calls CountingStreamable_next 4 (new_CountingStreamable (5::int) 2))"
    by simp
  moreover have "\<forall>r \<in> set (calls CountingStreamable_next 4 (new_CountingStreamable (5::int) 2)).
      r = None \<or> r = Some 5"
    by (rule spec [OF conjunct2 [OF conjunct2 [OF conjunct2 [OF frame]]]])
  then have "set (calls CountingStreamable_next 4 (new_CountingStreamable (5::int) 2))
      \<subseteq> {None, Some 5}"
    by blast
  moreover have "cs_value (snd (CountingStreamable_next (new_CountingStreamable (5::int) 2))) = 5"
    using conjunct1 [OF frame] by (simp add: new_CountingStreamable_def)
  ultimately show ?thesis
    by (intro conjI)
qed

subsection \<open>After exhaustion\<close>

text \<open>
  Claim C2. For the two sources, the counting source and the iterator-bound supplier, in
  whatever state: when a call has returned Absent, it has left the source as it was, so
  every later call returns Absent as well and the source never changes again. Both
  functions are total and have no error result; on the Absent branch the supplier
  neither dereferences nor moves an iterator.
\<close>

theorem sources_absent_stays_absent:
  "(fst (CountingStreamable_next s) = None \<longrightarrow>
      snd (CountingStreamable_next s) = s \<and>
      (\<forall>n. calls CountingStreamable_next n s = replicate n None \<and>
           advance CountingStreamable_next n s = s)) \<and>
   (fst (RefSupplier_get_next deref incr r) = None \<longrightarrow>
      snd (RefSupplier_get_next deref incr r) = r \<and>
      (\<forall>n. calls (RefSupplier_get_next deref incr) n r = replicate n None \<and>
           advance (RefSupplier_get_next deref incr) n r = r))"
  using absent_forever [of CountingStreamable_next s, OF counting_absent_unchanged]
    absent_forever [of "RefSupplier_get_next deref incr" r, OF supplier_absent_unchanged]
  by (simp add: counting_absent_unchanged supplier_absent_unchanged)

theorem sources_absent_stays_absent_witness:
  "fst (CountingStreamable_next (\<lparr>cs_value = (7::int), cs_max_count = 2, cs_count = 2\<rparr>)) = None \<and>
   fst (RefSupplier_get_next ((!) [1::int, 2]) Suc \<lparr>rs_current = 2, rs_end = 2\<rparr>) = None \<and>
   calls CountingStreamable_next 3 \<lparr>cs_value = (7::int), cs_max_count = 2, cs_count = 2\<rparr>
     = [None, None, None] \<and>
   calls (RefSupplier_get_next ((!) [1::int, 2]) Suc) 3 \<lparr>rs_current = 2, rs_end = 2\<rparr>
     = [None, None, None]"
  using sources_absent_stays_absent [of "\<lparr>cs_value = (7::int), cs_max_count = 2, cs_count = 2\<rparr>"
      "(!) [1::int, 2]" Suc "\<lparr>rs_current = 2, rs_end = 2\<rparr>"]
  by (simp add: CountingStreamable_next_def RefSupplier_get_next_def numeral_3_eq_3)

subsection \<open>\<^verbatim>\<open>reduce\<close>\<close>

text \<open>
  Claim C3. On a stream that yields the elements \<open>xs\<close>, \<^verbatim>\<open>reduce(f)\<close> returns: Absent
  when \<open>xs\<close> is empty; otherwise Present of the left fold of \<open>f\<close> over the elements
  after the first, in the order they are pulled, started from the first element (there is
  no initial value). It leaves the pipeline in the state after \<open>length xs + 1\<close> calls.
  On the stream \<open>[1, 2, 3]\<close> with addition the result is Present(6): that is the
  instance below.
\<close>

theorem reduce_left_fold:
  assumes "yields nxt s xs"
  shows "reduce nxt f s =
     Some (case xs of [] \<Rightarrow> None | x # xs' \<Rightarrow> Some (foldl f x xs'),
           advance nxt (Suc (length xs)) s)"
proof (cases xs)
  case Nil
  with assms show ?thesis
    by (simp add: reduce_yields_Nil)
next
  case (Cons x xs')
  with assms have "yields nxt s (x # xs')"
    by simp
  from reduce_yields_Cons [OF this] Cons show ?thesis
    by simp
qed

theorem reduce_left_fold_witness:
  "yields (RefSupplier_get_next ((!) [1, 2, 3 :: int]) Suc) (new_RefSupplier 0 3) [1, 2, 3] \<and>
   reduce (RefSupplier_get_next ((!) [1, 2, 3 :: int]) Suc) (\<lambda>a b. a + b) (new_RefSupplier 0 3)
     = Some (Some 6, \<lparr>rs_current = 3, rs_end = 3\<rparr>) \<and>
   yields CountingStreamable_next (new_CountingStreamable (7 :: int) 0) [] \<and>
   reduce CountingStreamable_next (\<lambda>a b. a + b) (new_CountingStreamable (7 :: int) 0)
     = Some (None, \<lparr>cs_value = 7, cs_max_count = 0, cs_count = 0\<rparr>)"
proof -
  let ?nxt = "RefSupplier_get_next ((!) [1, 2, 3 :: int]) Suc"
  have y: "yields ?nxt (new_RefSupplier 0 3) [1, 2, 3]"
    by code_simp
  have a: "advance ?nxt (Suc (length [1, 2, 3 :: int])) (new_RefSupplier 0 3)
      = \<lparr>rs_current = 3, rs_end = 3\<rparr>"
    by code_simp
  have e: "yields CountingStreamable_next (new_CountingStreamable (7 :: int) 0) []"
    by code_simp
  have b: "advance CountingStreamable_next (Suc (length ([] :: int list)))
      (new_CountingStreamable (7 :: int) 0) = \<lparr>cs_value = 7, cs_max_count = 0, cs_count = 0\<rparr>"
    by code_simp
  from reduce_left_fold [OF y, of "\<lambda>a b. a + b"] a
  have "reduce ?nxt (\<lambda>a b. a + b) (new_RefSupplier 0 3)
     = Some (Some 6, \<lparr>rs_current = 3, rs_end = 3\<rparr>)"
    by simp
  moreover from reduce_left_fold [OF e, of "\<lambda>a b. a + b"] b
  have "reduce CountingStreamable_next (\<lambda>a b. a + b) (new_CountingStreamable (7 :: int) 0)
     = Some (None, \<lparr>cs_value = 7, cs_max_count = 0, cs_count = 0\<rparr>)"
    by simp
  ultimately show ?thesis
    using y e by (intro conjI)
qed

subsection \<open>A second terminal operation\<close>

text \<open>
  Claim C4. A pipeline that keeps the contract of the protocol (after Absent, Absent
  again) and that one terminal operation has drained (\<^verbatim>\<open>count\<close>, \<^verbatim>\<open>reduce\<close>,
  \<^verbatim>\<open>find_last\<close> or \<^verbatim>\<open>collect\<close> has returned and left it in state \<open>s'\<close>) gives the
  empty result to a second terminal operation: \<^verbatim>\<open>count\<close> returns 0; \<^verbatim>\<open>reduce\<close>, \<^verbatim>\<open>sum\<close>,
  \<^verbatim>\<open>min\<close>, \<^verbatim>\<open>max\<close>, \<^verbatim>\<open>find_first\<close> and \<^verbatim>\<open>find_last\<close> return Absent; \<^verbatim>\<open>collect\<close>
  returns the empty container; \<^verbatim>\<open>collect_sequence\<close> and \<^verbatim>\<open>collect_to_memory\<close> store
  nothing. Each of them returns (the result is never the \<open>None\<close> of a call that
  does not return), none has an error result, and the pipeline is again in a state that
  a call returning Absent left it in.
\<close>

theorem second_terminal_operation_empty:
  fixes nxt :: "('a::{plus,ord}, 's) streamable"
  assumes "exhaustion_stable nxt"
    and "count nxt s = Some (n, s') \<or> reduce nxt f s = Some (r, s') \<or>
         find_last nxt s = Some (l, s') \<or> collect nxt s = Some (c, s')"
  shows "count nxt s' = Some (0, snd (nxt s')) \<and>
    reduce nxt g s' = Some (None, snd (nxt s')) \<and>
    sum_stream nxt s' = Some (None, snd (nxt s')) \<and>
    min_stream nxt s' = Some (None, snd (nxt s')) \<and>
    max_stream nxt s' = Some (None, snd (nxt s')) \<and>
    find_first nxt s' = (None, snd (nxt s')) \<and>
    find_last nxt s' = Some (None, snd (nxt s')) \<and>
    collect nxt s' = Some ([], snd (nxt s')) \<and>
    collect_sequence nxt EXTENT result s' = (result, snd (nxt s')) \<and>
    collect_to_memory nxt elements max_count s' = (elements, snd (nxt s')) \<and>
    absent_pulled nxt (snd (nxt s'))"
proof -
  from assms(2) have "absent_pulled nxt s'"
    by (auto dest: count_absent_pulled reduce_absent_pulled find_last_absent_pulled
        collect_absent_pulled)
  with assms(1) have "yields nxt s' []"
    by (rule stable_after_absent)
  then have absent: "fst (nxt s') = None"
    by simp
  then have "nxt s' = (None, snd (nxt s'))"
    by (simp add: prod_eq_iff)
  then have "absent_pulled nxt (snd (nxt s'))"
    unfolding absent_pulled_def by (rule exI)
  with absent_terminal_results [of nxt s', OF absent] show ?thesis
    by (intro conjI)
qed

theorem second_terminal_operation_empty_witness:
  "exhaustion_stable (CountingStreamable_next :: (int, int CountingStreamable) streamable) \<and>
   count CountingStreamable_next (new_CountingStreamable (5 :: int) 2)
     = Some (2, \<lparr>cs_value = 5, cs_max_count = 2, cs_count = 2\<rparr>) \<and>
   count CountingStreamable_next \<lparr>cs_value = 5 :: int, cs_max_count = 2, cs_count = 2\<rparr>
     = Some (0, \<lparr>cs_value = 5, cs_max_count = 2, cs_count = 2\<rparr>) \<and>
   reduce CountingStreamable_next (\<lambda>a b. a + b) \<lparr>cs_value = 5 :: int, cs_max_count = 2, cs_count = 2\<rparr>
     = Some (None, \<lparr>cs_value = 5, cs_max_count = 2, cs_count = 2\<rparr>) \<and>
   find_last CountingStreamable_next \<lparr>cs_value = 5 :: int, cs_max_count = 2, cs_count = 2\<rparr>
     = Some (None, \<lparr>cs_value = 5, cs_max_count = 2, cs_count = 2\<rparr>)"
proof -
  let ?s = "new_CountingStreamable (5 :: int) 2"
  let ?s' = "\<lparr>cs_value = 5 :: int, cs_max_count = 2, cs_count = 2\<rparr>"
  have stable: "exhaustion_stable (CountingStreamable_next :: (int, int CountingStreamable) streamable)"
    by (rule counting_stable)
  have drained: "count CountingStreamable_next ?s = Some (2, ?s')"
    by code_simp
  have after: "snd (CountingStreamable_next ?s') = ?s'"
    by code_simp
  from drained have "count CountingStreamable_next ?s = Some (2, ?s') \<or>
      reduce CountingStreamable_next (\<lambda>a b. a + b) ?s = Some (None, ?s') \<or>
      find_last CountingStreamable_next ?s = Some (None, ?s') \<or>
      collect CountingStreamable_next ?s = Some ([], ?s')"
    by (rule disjI1)
  from second_terminal_operation_empty [OF stable this, of "\<lambda>a b. a + b"]
  have "count CountingStreamable_next ?s' = Some (0, ?s')"
    and "reduce CountingStreamable_next (\<lambda>a b. a + b) ?s' = Some (None, ?s')"
    and "find_last CountingStreamable_next ?s' = Some (None, ?s')"
    by (simp_all only: after)
  with stable drained show ?thesis
    by (intro conjI)
qed

subsection \<open>\<^verbatim>\<open>sum\<close>, \<^verbatim>\<open>min\<close> and \<^verbatim>\<open>max\<close>\<close>

text \<open>
  Claim C6. On every stream, finite or not, \<^verbatim>\<open>sum()\<close> is \<^verbatim>\<open>reduce\<close> with addition,
  \<^verbatim>\<open>min()\<close> is \<^verbatim>\<open>reduce\<close> with the function that returns its second argument when
  it is less than the first and the first otherwise, and \<^verbatim>\<open>max()\<close> is \<^verbatim>\<open>reduce\<close> with
  the function that returns its second argument when the first is less than it. On an
  empty stream the three return Absent; on a stream that yields \<open>x # xs\<close> they return
  Present of the sum taken from left to right, of the least and of the greatest element,
  the element type being totally ordered by \<^verbatim>\<open>operator<\<close>.
\<close>

theorem sum_min_max_are_reduce:
  fixes nxt :: "('a::{plus,linorder}, 's) streamable"
  shows "sum_stream nxt s = reduce nxt (\<lambda>a b. a + b) s \<and>
    min_stream nxt s = reduce nxt (\<lambda>a b. if b < a then b else a) s \<and>
    max_stream nxt s = reduce nxt (\<lambda>a b. if a < b then b else a) s \<and>
    (yields nxt s [] \<longrightarrow>
       sum_stream nxt s = Some (None, advance nxt (Suc 0) s) \<and>
       min_stream nxt s = Some (None, advance nxt (Suc 0) s) \<and>
       max_stream nxt s = Some (None, advance nxt (Suc 0) s)) \<and>
    (yields nxt s (x # xs) \<longrightarrow>
       sum_stream nxt s =
         Some (Some (foldl (\<lambda>a b. a + b) x xs), advance nxt (Suc (Suc (length xs))) s) \<and>
       min_stream nxt s =
         Some (Some (Min (set (x # xs))), advance nxt (Suc (Suc (length xs))) s) \<and>
       max_stream nxt s =
         Some (Some (Max (set (x # xs))), advance nxt (Suc (Suc (length xs))) s))"
proof (intro conjI impI)
  show "sum_stream nxt s = reduce nxt (\<lambda>a b. a + b) s"
    by (simp add: sum_stream_def)
  show "min_stream nxt s = reduce nxt (\<lambda>a b. if b < a then b else a) s"
    by (rule min_stream_eq_reduce)
  show "max_stream nxt s = reduce nxt (\<lambda>a b. if a < b then b else a) s"
    by (rule max_stream_eq_reduce)
next
  assume "yields nxt s []"
  then show "sum_stream nxt s = Some (None, advance nxt (Suc 0) s)"
    and "min_stream nxt s = Some (None, advance nxt (Suc 0) s)"
    and "max_stream nxt s = Some (None, advance nxt (Suc 0) s)"
    by (simp_all only: sum_stream_def min_stream_eq_reduce max_stream_eq_reduce
        reduce_yields_Nil)
next
  assume y: "yields nxt s (x # xs)"
  then show "sum_stream nxt s =
      Some (Some (foldl (\<lambda>a b. a + b) x xs), advance nxt (Suc (Suc (length xs))) s)"
    by (simp only: sum_stream_def reduce_yields_Cons)
  from y show "min_stream nxt s =
      Some (Some (Min (set (x # xs))), advance nxt (Suc (Suc (length xs))) s)"
    by (simp only: min_stream_eq_reduce reduce_yields_Cons foldl_min_Min)
  from y show "max_stream nxt s =
      Some (Some (Max (set (x # xs))), advance nxt (Suc (Suc (length xs))) s)"
    by (simp only: max_stream_eq_reduce reduce_yields_Cons foldl_max_Max)
qed

theorem sum_min_max_are_reduce_witness:
  "yields (RefSupplier_get_next ((!) [3, 1, 2 :: int]) Suc) (new_RefSupplier 0 3) [3, 1, 2] \<and>
   sum_stream (RefSupplier_get_next ((!) [3, 1, 2 :: int]) Suc) (new_RefSupplier 0 3)
     = Some (Some 6, \<lparr>rs_current = 3, rs_end = 3\<rparr>) \<and>
   min_stream (RefSupplier_get_next ((!) [3, 1, 2 :: int]) Suc) (new_RefSupplier 0 3)
     = Some (Some 1, \<lparr>rs_current = 3, rs_end = 3\<rparr>) \<and>
   max_stream (RefSupplier_get_next ((!) [3, 1, 2 :: int]) Suc) (new_RefSupplier 0 3)
     = Some (Some 3, \<lparr>rs_current = 3, rs_end = 3\<rparr>) \<and>
   yields (RefSupplier_get_next ((!) ([] :: int list)) Suc) (new_RefSupplier 0 0) [] \<and>
   min_stream (RefSupplier_get_next ((!) ([] :: int list)) Suc) (new_RefSupplier 0 0)
     = Some (None, \<lparr>rs_current = 0, rs_end = 0\<rparr>)"
proof -
  let ?nxt = "RefSupplier_get_next ((!) [3, 1, 2 :: int]) Suc"
  let ?s = "new_RefSupplier 0 (3 :: nat)"
  let ?empty_nxt = "RefSupplier_get_next ((!) ([] :: int list)) Suc"
  let ?empty_s = "new_RefSupplier 0 (0 :: nat)"
  note full = sum_min_max_are_reduce [of ?nxt ?s 3 "[1, 2]"]
  note empty = sum_min_max_are_reduce [of ?empty_nxt ?empty_s]
  have y: "yields ?nxt ?s [3, 1, 2]"
    by code_simp
  have a: "advance ?nxt (Suc (Suc (length [1, 2 :: int]))) ?s = \<lparr>rs_current = 3, rs_end = 3\<rparr>"
    by code_simp
  have e: "yields ?empty_nxt ?empty_s []"
    by code_simp
  have b: "advance ?empty_nxt (Suc 0) ?empty_s = \<lparr>rs_current = 0, rs_end = 0\<rparr>"
    by code_simp
  from full y have
    "sum_stream ?nxt ?s = Some (Some (foldl (\<lambda>a b. a + b) 3 [1, 2]),
        advance ?nxt (Suc (Suc (length [1, 2 :: int]))) ?s)"
    "min_stream ?nxt ?s = Some (Some (Min (set [3, 1, 2])),
        advance ?nxt (Suc (Suc (length [1, 2 :: int]))) ?s)"
    "max_stream ?nxt ?s = Some (Some (Max (set [3, 1, 2])),
        advance ?nxt (Suc (Suc (length [1, 2 :: int]))) ?s)"
    by blast+
  then have "sum_stream ?nxt ?s = Some (Some 6, \<lparr>rs_current = 3, rs_end = 3\<rparr>)"
    "min_stream ?nxt ?s = Some (Some 1, \<lparr>rs_current = 3, rs_end = 3\<rparr>)"
    "max_stream ?nxt ?s = Some (Some 3, \<lparr>rs_current = 3, rs_end = 3\<rparr>)"
    by (simp_all only: a) simp_all
  moreover from empty e have "min_stream ?empty_nxt ?empty_s = Some (None, advance ?empty_nxt (Suc 0) ?empty_s)"
    by blast
  then have "min_stream ?empty_nxt ?empty_s = Some (None, \<lparr>rs_current = 0, rs_end = 0\<rparr>)"
    by (simp only: b)
  ultimately show ?thesis
    using y e by (intro conjI)
qed

subsection \<open>\<^verbatim>\<open>skip\<close>\<close>

text \<open>
  Claim C8. On a stream that yields \<open>xs\<close>, of length \<open>L\<close>, \<^verbatim>\<open>skip(n)\<close> always
  returns, with the pipeline it was called on. When \<open>n \<le> L\<close> it has made exactly
  \<open>n\<close> calls, which returned the first \<open>n\<close> elements, and the pipeline yields the
  elements after them. When \<open>L < n\<close> it has stopped early, after \<open>L + 1\<close> calls: the
  \<open>L\<close> elements and the Absent that ends the loop. So it discards the first
  \<open>min n L\<close> elements; on a pipeline that keeps the contract of the protocol what
  remains to be pulled is \<open>drop n xs\<close> in both cases.
\<close>

theorem skip_discards_prefix:
  assumes "yields nxt s xs"
  shows "(unat n \<le> length xs \<longrightarrow>
       skip nxt n s = advance nxt (unat n) s \<and>
       calls nxt (unat n) s = map Some (take (unat n) xs) \<and>
       yields nxt (skip nxt n s) (drop (unat n) xs)) \<and>
     (length xs < unat n \<longrightarrow>
       skip nxt n s = advance nxt (Suc (length xs)) s \<and>
       calls nxt (Suc (length xs)) s = map Some xs @ [None]) \<and>
     (exhaustion_stable nxt \<longrightarrow> yields nxt (skip nxt n s) (drop (unat n) xs))"
proof (intro conjI impI)
  note skip = skip_yields [OF assms, of n]
  show "calls nxt (Suc (length xs)) s = map Some xs @ [None]"
    using assms by (rule yields_calls)
  {
    assume "unat n \<le> length xs"
    with assms show "calls nxt (unat n) s = map Some (take (unat n) xs)"
      by (rule yields_calls_prefix)
  }
  {
    assume le: "unat n \<le> length xs"
    then have "min (unat n) (Suc (length xs)) = unat n"
      by simp
    with skip show "skip nxt n s = advance nxt (unat n) s"
      by (simp only:)
    with yields_advance [OF assms le] show "yields nxt (skip nxt n s) (drop (unat n) xs)"
      by simp
  }
  {
    assume "length xs < unat n"
    then have "min (unat n) (Suc (length xs)) = Suc (length xs)"
      by simp
    with skip show "skip nxt n s = advance nxt (Suc (length xs)) s"
      by (simp only:)
  }
  {
    assume "exhaustion_stable nxt"
    from yields_advance_stable [OF this assms, of "min (unat n) (Suc (length xs))"]
    have "yields nxt (skip nxt n s) (drop (min (unat n) (Suc (length xs))) xs)"
      by (simp only: skip)
    moreover have "drop (min (unat n) (Suc (length xs))) xs = drop (unat n) xs"
      by (cases "unat n \<le> length xs") (simp_all add: min_def)
    ultimately show "yields nxt (skip nxt n s) (drop (unat n) xs)"
      by simp
  }
qed

theorem skip_discards_prefix_witness:
  "yields CountingStreamable_next (new_CountingStreamable (5 :: int) 3) [5, 5, 5] \<and>
   exhaustion_stable (CountingStreamable_next :: (int, int CountingStreamable) streamable) \<and>
   unat (2 :: size_t) \<le> length [5, 5, 5 :: int] \<and>
   skip CountingStreamable_next 2 (new_CountingStreamable (5 :: int) 3)
     = \<lparr>cs_value = 5, cs_max_count = 3, cs_count = 2\<rparr> \<and>
   yields CountingStreamable_next
     (skip CountingStreamable_next 2 (new_CountingStreamable (5 :: int) 3)) [5] \<and>
   length [5, 5, 5 :: int] < unat (7 :: size_t) \<and>
   skip CountingStreamable_next 7 (new_CountingStreamable (5 :: int) 3)
     = \<lparr>cs_value = 5, cs_max_count = 3, cs_count = 3\<rparr> \<and>
   yields CountingStreamable_next
     (skip CountingStreamable_next 7 (new_CountingStreamable (5 :: int) 3)) []"
proof -
  let ?s = "new_CountingStreamable (5 :: int) 3"
  have y: "yields CountingStreamable_next ?s [5, 5, 5]"
    by code_simp
  have stable: "exhaustion_stable (CountingStreamable_next :: (int, int CountingStreamable) streamable)"
    by (rule counting_stable)
  have le: "unat (2 :: size_t) \<le> length [5, 5, 5 :: int]"
    and lt: "length [5, 5, 5 :: int] < unat (7 :: size_t)"
    by simp_all
  have a2: "advance CountingStreamable_next (unat (2 :: size_t)) ?s
      = \<lparr>cs_value = 5, cs_max_count = 3, cs_count = 2\<rparr>"
    and a7: "advance CountingStreamable_next (Suc (length [5, 5, 5 :: int])) ?s
      = \<lparr>cs_value = 5, cs_max_count = 3, cs_count = 3\<rparr>"
    by code_simp+
  have d2: "drop (unat (2 :: size_t)) [5, 5, 5 :: int] = [5]"
    and d7: "drop (unat (7 :: size_t)) [5, 5, 5 :: int] = []"
    by simp_all
  from skip_discards_prefix [OF y, of 2] le
  have "skip CountingStreamable_next 2 ?s = advance CountingStreamable_next (unat (2 :: size_t)) ?s"
    and "yields CountingStreamable_next (skip CountingStreamable_next 2 ?s)
      (drop (unat (2 :: size_t)) [5, 5, 5])"
    by blast+
  then have "skip CountingStreamable_next 2 ?s = \<lparr>cs_value = 5, cs_max_count = 3, cs_count = 2\<rparr>"
    and "yields CountingStreamable_next (skip CountingStreamable_next 2 ?s) [5]"
    by (simp_all only: a2 d2)
  moreover from skip_discards_prefix [OF y, of 7] lt stable
  have "skip CountingStreamable_next 7 ?s
      = advance CountingStreamable_next (Suc (length [5, 5, 5 :: int])) ?s"
    and "yields CountingStreamable_next (skip CountingStreamable_next 7 ?s)
      (drop (unat (7 :: size_t)) [5, 5, 5])"
    by blast+
  then have "skip CountingStreamable_next 7 ?s = \<lparr>cs_value = 5, cs_max_count = 3, cs_count = 3\<rparr>"
    and "yields CountingStreamable_next (skip CountingStreamable_next 7 ?s) []"
    by (simp_all only: a7 d7)
  ultimately show ?thesis
    using y stable le lt by (intro conjI)
qed

subsection \<open>The capacity-bounded \<^verbatim>\<open>collect\<close>\<close>

text \<open>
  Claim C7. On a stream that yields \<open>xs\<close>, of length \<open>L\<close>, \<^verbatim>\<open>collect_to_memory\<close> with
  the bound \<open>max_count\<close> and \<^verbatim>\<open>collect_sequence\<close> with the bound \<open>EXTENT\<close> always
  return, and with \<open>m = min L bound\<close>: the positions below \<open>m\<close> hold the first \<open>m\<close>
  elements of the stream, in order; every position from \<open>m\<close> on, so every position at
  or beyond the bound, holds what it held before; and the loop has stored \<open>m\<close> times
  (it stores once for each increment of \<open>index\<close>, which ends at \<open>m\<close>). What the
  stream holds beyond the bound is not stored and is not reported: the functions have no
  error result. The sequence is as long as its extent.
\<close>

theorem bounded_collect_keeps_prefix:
  assumes "yields nxt s xs"
  shows "fst (collect_to_memory nxt elements max_count s)
       = (\<lambda>i. if i < min (length xs) (unat max_count) then xs ! i else elements i) \<and>
     unat (fst (snd (snd (collect_to_memory_loop nxt max_count elements
        (fst (nxt s)) 0 (snd (nxt s))))))
       = min (length xs) (unat max_count) \<and>
     (length result = unat EXTENT \<longrightarrow>
        fst (collect_sequence nxt EXTENT result s)
          = take (min (length xs) (unat EXTENT)) xs @ drop (min (length xs) (unat EXTENT)) result \<and>
        unat (fst (snd (snd (collect_sequence_loop nxt EXTENT result
           (fst (nxt s)) 0 (snd (nxt s))))))
          = min (length xs) (unat EXTENT))"
proof (intro conjI impI)
  note mem = collect_to_memory_yields [OF assms refl, of max_count elements]
  show "fst (collect_to_memory nxt elements max_count s)
       = (\<lambda>i. if i < min (length xs) (unat max_count) then xs ! i else elements i)"
    by (simp add: collect_to_memory_def case_prod_beta mem)
  show "unat (fst (snd (snd (collect_to_memory_loop nxt max_count elements
        (fst (nxt s)) 0 (snd (nxt s)))))) = min (length xs) (unat max_count)"
    by (simp add: mem le_unat_uoi [of _ max_count])
next
  assume len: "length result = unat EXTENT"
  note seq = collect_sequence_yields [OF assms refl len]
  show "fst (collect_sequence nxt EXTENT result s)
      = take (min (length xs) (unat EXTENT)) xs @ drop (min (length xs) (unat EXTENT)) result"
    by (simp add: collect_sequence_def case_prod_beta seq)
  show "unat (fst (snd (snd (collect_sequence_loop nxt EXTENT result
      (fst (nxt s)) 0 (snd (nxt s)))))) = min (length xs) (unat EXTENT)"
    by (simp add: seq le_unat_uoi [of _ EXTENT])
qed

theorem bounded_collect_keeps_prefix_witness:
  "yields (RefSupplier_get_next ((!) [1, 2, 3 :: int]) Suc) (new_RefSupplier 0 3) [1, 2, 3] \<and>
   map (fst (collect_to_memory (RefSupplier_get_next ((!) [1, 2, 3 :: int]) Suc) (\<lambda>i. 9) 2
          (new_RefSupplier 0 3))) [0, 1, 2, 3] = [1, 2, 9, 9] \<and>
   length [9, 9 :: int] = unat (2 :: size_t) \<and>
   fst (collect_sequence (RefSupplier_get_next ((!) [1, 2, 3 :: int]) Suc) 2 [9, 9]
          (new_RefSupplier 0 3)) = [1, 2] \<and>
   length [9, 9, 9, 9 :: int] = unat (4 :: size_t) \<and>
   fst (collect_sequence (RefSupplier_get_next ((!) [1, 2, 3 :: int]) Suc) 4 [9, 9, 9, 9]
          (new_RefSupplier 0 3)) = [1, 2, 3, 9]"
proof -
  let ?nxt = "RefSupplier_get_next ((!) [1, 2, 3 :: int]) Suc"
  let ?s = "new_RefSupplier 0 (3 :: nat)"
  have y: "yields ?nxt ?s [1, 2, 3]"
    by code_simp
  have l2: "length [9, 9 :: int] = unat (2 :: size_t)"
    and l4: "length [9, 9, 9, 9 :: int] = unat (4 :: size_t)"
    by simp_all
  from bounded_collect_keeps_prefix [OF y, of "\<lambda>i. 9" 2 "[9, 9]" 2] l2
  have "fst (collect_to_memory ?nxt (\<lambda>i. 9) 2 ?s)
      = (\<lambda>i. if i < min (length [1, 2, 3 :: int]) (unat (2 :: size_t)) then [1, 2, 3] ! i else 9)"
    and "fst (collect_sequence ?nxt 2 [9, 9] ?s)
      = take (min (length [1, 2, 3 :: int]) (unat (2 :: size_t))) [1, 2, 3]
        @ drop (min (length [1, 2, 3 :: int]) (unat (2 :: size_t))) [9, 9]"
    by blast+
  then have "map (fst (collect_to_memory ?nxt (\<lambda>i. 9) 2 ?s)) [0, 1, 2, 3] = [1, 2, 9, 9]"
    and "fst (collect_sequence ?nxt 2 [9, 9] ?s) = [1, 2]"
    by simp_all
  moreover from bounded_collect_keeps_prefix [OF y, of "\<lambda>i. 9" 2 "[9, 9, 9, 9]" 4] l4
  have "fst (collect_sequence ?nxt 4 [9, 9, 9, 9] ?s)
      = take (min (length [1, 2, 3 :: int]) (unat (4 :: size_t))) [1, 2, 3]
        @ drop (min (length [1, 2, 3 :: int]) (unat (4 :: size_t))) [9, 9, 9, 9]"
    by blast
  then have "fst (collect_sequence ?nxt 4 [9, 9, 9, 9] ?s) = [1, 2, 3, 9]"
    by simp
  ultimately show ?thesis
    using y l2 l4 by (intro conjI)
qed

text \<open>
  Claim C10. When the stream holds more elements than the bound, \<^verbatim>\<open>collect_to_memory\<close>
  and \<^verbatim>\<open>collect_sequence\<close> leave the pipeline in the state after \<open>bound + 1\<close> calls,
  each of which returned an element: the loop ends holding the element at position
  \<open>bound\<close> of the stream, which it has pulled and does not store, and the pipeline
  yields only the elements after that one.
\<close>

theorem bounded_collect_consumes_one_more:
  assumes "yields nxt s xs" and "unat cap < length xs"
  shows "snd (collect_to_memory nxt elements cap s) = advance nxt (Suc (unat cap)) s \<and>
     calls nxt (Suc (unat cap)) s = map Some (take (Suc (unat cap)) xs) \<and>
     yields nxt (snd (collect_to_memory nxt elements cap s)) (drop (Suc (unat cap)) xs) \<and>
     fst (snd (collect_to_memory_loop nxt cap elements (fst (nxt s)) 0 (snd (nxt s))))
       = Some (xs ! unat cap) \<and>
     snd (collect_sequence nxt cap result s) = advance nxt (Suc (unat cap)) s \<and>
     yields nxt (snd (collect_sequence nxt cap result s)) (drop (Suc (unat cap)) xs) \<and>
     fst (snd (collect_sequence_loop nxt cap result (fst (nxt s)) 0 (snd (nxt s))))
       = Some (xs ! unat cap)"
proof -
  from assms(2) have m: "unat cap = min (length xs) (unat cap)"
    by simp
  have mem: "collect_to_memory_loop nxt cap mem (fst (nxt s)) 0 (snd (nxt s)) =
     ((\<lambda>i. if i < unat cap then xs ! i else mem i),
      Some (xs ! unat cap), of_nat (unat cap), advance nxt (Suc (unat cap)) s)" for mem
    using collect_to_memory_yields [OF assms(1) m, of mem] assms(2) by simp
  from assms(2) have "Suc (unat cap) \<le> length xs"
    by simp
  with assms(1) have rest: "yields nxt (advance nxt (Suc (unat cap)) s) (drop (Suc (unat cap)) xs)"
    and pulled: "calls nxt (Suc (unat cap)) s = map Some (take (Suc (unat cap)) xs)"
    by (rule yields_advance, rule yields_calls_prefix)
  have 1: "snd (collect_to_memory nxt elements cap s) = advance nxt (Suc (unat cap)) s"
    by (simp add: collect_to_memory_def case_prod_beta mem)
  have 2: "snd (collect_sequence nxt cap result s) = advance nxt (Suc (unat cap)) s"
    by (simp add: collect_sequence_def case_prod_beta collect_sequence_loop_state mem)
  have 3: "fst (snd (collect_to_memory_loop nxt cap elements (fst (nxt s)) 0 (snd (nxt s))))
       = Some (xs ! unat cap)"
    by (simp add: mem)
  have 4: "fst (snd (collect_sequence_loop nxt cap result (fst (nxt s)) 0 (snd (nxt s))))
       = Some (xs ! unat cap)"
    by (simp add: collect_sequence_loop_state mem)
  from rest pulled 1 2 3 4 show ?thesis
    by (simp only: simp_thms)
qed

theorem bounded_collect_consumes_one_more_witness:
  "yields (RefSupplier_get_next ((!) [1, 2, 3, 4 :: int]) Suc) (new_RefSupplier 0 4) [1, 2, 3, 4] \<and>
   unat (2 :: size_t) < length [1, 2, 3, 4 :: int] \<and>
   snd (collect_to_memory (RefSupplier_get_next ((!) [1, 2, 3, 4 :: int]) Suc) (\<lambda>i. 9) 2
          (new_RefSupplier 0 4)) = \<lparr>rs_current = 3, rs_end = 4\<rparr> \<and>
   snd (collect_sequence (RefSupplier_get_next ((!) [1, 2, 3, 4 :: int]) Suc) 2 [9, 9]
          (new_RefSupplier 0 4)) = \<lparr>rs_current = 3, rs_end = 4\<rparr> \<and>
   yields (RefSupplier_get_next ((!) [1, 2, 3, 4 :: int]) Suc)
     (snd (collect_to_memory (RefSupplier_get_next ((!) [1, 2, 3, 4 :: int]) Suc) (\<lambda>i. 9) 2
          (new_RefSupplier 0 4))) [4]"
proof -
  let ?nxt = "RefSupplier_get_next ((!) [1, 2, 3, 4 :: int]) Suc"
  let ?s = "new_RefSupplier 0 (4 :: nat)"
  have y: "yields ?nxt ?s [1, 2, 3, 4]"
    by code_simp
  have lt: "unat (2 :: size_t) < length [1, 2, 3, 4 :: int]"
    by simp
  have a: "advance ?nxt (Suc (unat (2 :: size_t))) ?s = \<lparr>rs_current = 3, rs_end = 4\<rparr>"
    by code_simp
  have d: "drop (Suc (unat (2 :: size_t))) [1, 2, 3, 4 :: int] = [4]"
    by simp
  from bounded_collect_consumes_one_more [OF y lt, of "\<lambda>i. 9" "[9, 9]"]
  have "snd (collect_to_memory ?nxt (\<lambda>i. 9) 2 ?s) = advance ?nxt (Suc (unat (2 :: size_t))) ?s"
    and "snd (collect_sequence ?nxt 2 [9, 9] ?s) = advance ?nxt (Suc (unat (2 :: size_t))) ?s"
    and "yields ?nxt (snd (collect_to_memory ?nxt (\<lambda>i. 9) 2 ?s))
      (drop (Suc (unat (2 :: size_t))) [1, 2, 3, 4])"
    by blast+
  then have "snd (collect_to_memory ?nxt (\<lambda>i. 9) 2 ?s) = \<lparr>rs_current = 3, rs_end = 4\<rparr>"
    and "snd (collect_sequence ?nxt 2 [9, 9] ?s) = \<lparr>rs_current = 3, rs_end = 4\<rparr>"
    and "yields ?nxt (snd (collect_to_memory ?nxt (\<lambda>i. 9) 2 ?s)) [4]"
    by (simp_all only: a d)
  with y lt show ?thesis
    by (intro conjI)
qed

subsection \<open>\<^verbatim>\<open>chain\<close> and \<^verbatim>\<open>pre_chain\<close>\<close>

text \<open>
  Claim C5. Let the stream \<open>A\<close> yield \<open>xs\<close> and the streamable \<open>B\<close> yield \<open>ys\<close>.
  \<^verbatim>\<open>A.chain(B)\<close> yields \<open>xs @ ys\<close>: the elements of \<open>A\<close> in order, then those of
  \<open>B\<close> in order. \<^verbatim>\<open>A.pre_chain(B)\<close> yields \<open>ys @ xs\<close>: \<open>B\<close> is prepended. In both
  forms the component that comes second is not pulled, and so is in its initial state,
  as long as the first has elements to give. The component that comes first keeps the
  contract of the protocol (after Absent, Absent again): the stage pulls it again on
  every call.
\<close>

theorem chain_order:
  assumes "yields nxt_a a xs" and "yields nxt_b b ys"
  shows "(exhaustion_stable nxt_a \<longrightarrow>
        yields (ChainingStream_next nxt_a nxt_b) (chain a b) (xs @ ys)) \<and>
     (exhaustion_stable nxt_b \<longrightarrow>
        yields (ChainingStream_next nxt_b nxt_a) (pre_chain a b) (ys @ xs)) \<and>
     (\<forall>k \<le> length xs.
        chain_second (advance (ChainingStream_next nxt_a nxt_b) k (chain a b)) = b) \<and>
     (\<forall>k \<le> length ys.
        chain_second (advance (ChainingStream_next nxt_b nxt_a) k (pre_chain a b)) = a)"
  using assms
  by (simp add: chain_def pre_chain_def new_ChainingStream_def chain_yields
      chain_second_untouched)

theorem chain_order_witness:
  "yields (RefSupplier_get_next ((!) [1, 2 :: int]) Suc) (new_RefSupplier 0 2) [1, 2] \<and>
   yields (RefSupplier_get_next ((!) [3, 4 :: int]) Suc) (new_RefSupplier 0 2) [3, 4] \<and>
   exhaustion_stable (RefSupplier_get_next ((!) [1, 2 :: int]) Suc) \<and>
   exhaustion_stable (RefSupplier_get_next ((!) [3, 4 :: int]) Suc) \<and>
   yields (ChainingStream_next (RefSupplier_get_next ((!) [1, 2 :: int]) Suc)
             (RefSupplier_get_next ((!) [3, 4 :: int]) Suc))
     (chain (new_RefSupplier 0 2) (new_RefSupplier 0 2)) [1, 2, 3, 4] \<and>
   yields (ChainingStream_next (RefSupplier_get_next ((!) [3, 4 :: int]) Suc)
             (RefSupplier_get_next ((!) [1, 2 :: int]) Suc))
     (pre_chain (new_RefSupplier 0 2) (new_RefSupplier 0 2)) [3, 4, 1, 2]"
proof -
  let ?a = "RefSupplier_get_next ((!) [1, 2 :: int]) Suc"
  let ?b = "RefSupplier_get_next ((!) [3, 4 :: int]) Suc"
  let ?s = "new_RefSupplier 0 (2 :: nat)"
  have ya: "yields ?a ?s [1, 2]" and yb: "yields ?b ?s [3, 4]"
    by code_simp+
  have sa: "exhaustion_stable ?a" and sb: "exhaustion_stable ?b"
    by (rule supplier_stable)+
  from chain_order [OF ya yb] sa sb
  have "yields (ChainingStream_next ?a ?b) (chain ?s ?s) ([1, 2] @ [3, 4])"
    and "yields (ChainingStream_next ?b ?a) (pre_chain ?s ?s) ([3, 4] @ [1, 2])"
    by blast+
  then have "yields (ChainingStream_next ?a ?b) (chain ?s ?s) [1, 2, 3, 4]"
    and "yields (ChainingStream_next ?b ?a) (pre_chain ?s ?s) [3, 4, 1, 2]"
    by (simp_all only: append.simps)
  with ya yb sa sb show ?thesis
    by (intro conjI)
qed

end
